theory Spec2Isabelle
  imports Main
begin

section \<open>Bytes, buffers and the JavaScript primitives the server uses\<close>

text \<open>
  A Node \<open>Buffer\<close> is a fixed-length byte array; a byte is a \<^typ>\<open>char\<close> and a buffer a
  \<^typ>\<open>string\<close>. Decoding with \<open>latin1\<close> is then the identity. JavaScript numbers that hold
  lengths and indices are integers here (\<^typ>\<open>int\<close>, since the code lets some of them go
  negative); \<open>NaN\<close> is \<open>None\<close> where a number can be \<open>NaN\<close>.
\<close>

type_synonym Buffer = string

abbreviation CRLF :: Buffer where
  "CRLF \<equiv> [CHR 0x0D, CHR 0x0A]"

text \<open>Everything the code throws: \<open>HTTPError(code, message)\<close>, a plain \<open>Error(message)\<close>,
  and the errors raised by the runtime itself.\<close>

datatype error =
    HTTPError int string
  | Error string
  | RangeError
  | TypeError
  | IOError

text \<open>\<open>Buffer.alloc(n)\<close>: \<open>n\<close> zero bytes.\<close>

definition alloc :: "int \<Rightarrow> Buffer" where
  "alloc n = replicate (nat n) (CHR 0x00)"

text \<open>Relative offsets of \<open>subarray\<close> and \<open>copyWithin\<close>: a negative offset counts from
  the end, and the result is clamped to \<open>[0, n]\<close>.\<close>

definition adjustOffset :: "int \<Rightarrow> nat \<Rightarrow> nat" where
  "adjustOffset offset n =
     (if offset < 0 then nat (max (int n + offset) 0) else min (nat offset) n)"

definition subarray :: "Buffer \<Rightarrow> int \<Rightarrow> int \<Rightarrow> Buffer" where
  "subarray b start fin =
     (let s = adjustOffset start (length b);
          e = adjustOffset fin (length b)
      in take (e - s) (drop s b))"

text \<open>\<open>b.copyWithin(target, start, end)\<close>: the bytes \<open>[start, end)\<close> are moved to
  \<open>target\<close>; the buffer keeps its length.\<close>

definition copyWithin :: "Buffer \<Rightarrow> int \<Rightarrow> int \<Rightarrow> int \<Rightarrow> Buffer" where
  "copyWithin b target start fin =
     (let n = length b;
          to = adjustOffset target n;
          from = adjustOffset start n;
          final = adjustOffset fin n;
          count = min (final - from) (n - to)
      in take to b @ take count (drop from b) @ drop (to + count) b)"

text \<open>\<open>src.copy(target, targetStart, 0)\<close>: Node raises a range error on a negative
  \<open>targetStart\<close>, and otherwise copies as many bytes as fit. Both call sites pass
  \<open>sourceStart = 0\<close>. The result is the target after the copy.\<close>

definition copy :: "Buffer \<Rightarrow> Buffer \<Rightarrow> int \<Rightarrow> error + Buffer" where
  "copy src target targetStart =
     (if targetStart < 0 then Inl RangeError
      else let t = nat targetStart;
               nb = min (length src) (length target - t)
           in Inr (take t target @ take nb src @ drop (t + nb) target))"

text \<open>\<open>b.indexOf(pat)\<close>: the first index at which \<open>pat\<close> occurs in \<open>b\<close>, or \<open>-1\<close>.\<close>

fun indexOf :: "Buffer \<Rightarrow> Buffer \<Rightarrow> int" where
  "indexOf [] pat = (if pat = [] then 0 else - 1)"
| "indexOf (x # xs) pat =
     (if take (length pat) (x # xs) = pat then 0
      else (let k = indexOf xs pat in if k < 0 then - 1 else k + 1))"

subsection \<open>dynamic_buffer: DynBuf, bufPush, bufPop\<close>

record DynBuf =
  data :: Buffer
  dlength :: int

text \<open>The loop \<open>while (cap < newLen) cap *= 2\<close>. It is entered with
  \<open>cap = max(buf.data.length, 32)\<close>; the guard \<open>0 < cap\<close>, true there, makes the
  recursion well-founded on every argument.\<close>

function grow_cap :: "int \<Rightarrow> int \<Rightarrow> int" where
  "grow_cap cap newLen = (if cap < newLen \<and> 0 < cap then grow_cap (cap * 2) newLen else cap)"
  by pat_completeness auto
termination
  by (relation "measure (\<lambda>(cap, newLen). nat (newLen - cap))") auto

declare grow_cap.simps [simp del]

text \<open>\<open>bufPush\<close> mutates \<open>buf\<close>; the model returns the buffer after the call. The range
  error of the second \<open>copy\<close> (a negative \<open>buf.length\<close>) leaves the function by exception.\<close>

definition bufPush :: "DynBuf \<Rightarrow> Buffer \<Rightarrow> error + DynBuf" where
  "bufPush buf d =
     (let newLen = dlength buf + int (length d) in
      case (if int (length (data buf)) < newLen
            then (let cap = grow_cap (max (int (length (data buf))) 32) newLen;
                      grown = alloc cap
                  in copy (data buf) grown 0)
            else Inr (data buf)) of
        Inl e \<Rightarrow> Inl e
      | Inr store \<Rightarrow>
          (case copy d store (dlength buf) of
             Inl e \<Rightarrow> Inl e
           | Inr store' \<Rightarrow> Inr \<lparr>data = store', dlength = newLen\<rparr>))"

definition bufPop :: "DynBuf \<Rightarrow> int \<Rightarrow> DynBuf" where
  "bufPop buf n =
     \<lparr>data = copyWithin (data buf) 0 n (dlength buf), dlength = dlength buf - n\<rparr>"

text \<open>The valid bytes \<open>[0, length)\<close> of a buffer, its capacity, and the invariant of the
  data model: the logical length lies between 0 and the capacity.\<close>

definition valid :: "DynBuf \<Rightarrow> Buffer" where
  "valid buf = take (nat (dlength buf)) (data buf)"

definition capacity :: "DynBuf \<Rightarrow> int" where
  "capacity buf = int (length (data buf))"

definition wf_buf :: "DynBuf \<Rightarrow> bool" where
  "wf_buf buf = (0 \<le> dlength buf \<and> dlength buf \<le> int (length (data buf)))"

text \<open>A sequence of appends and front evictions, run from a buffer; \<open>ops_ok\<close> says that no
  eviction asks for more than the buffer holds at that moment.\<close>

datatype bufOp = Push Buffer | Pop nat

fun run_ops :: "DynBuf \<Rightarrow> bufOp list \<Rightarrow> error + DynBuf" where
  "run_ops buf [] = Inr buf"
| "run_ops buf (Push d # ops) =
     (case bufPush buf d of Inl e \<Rightarrow> Inl e | Inr buf' \<Rightarrow> run_ops buf' ops)"
| "run_ops buf (Pop n # ops) = run_ops (bufPop buf (int n)) ops"

fun ops_ok :: "int \<Rightarrow> bufOp list \<Rightarrow> bool" where
  "ops_ok l [] = True"
| "ops_ok l (Push d # ops) = ops_ok (l + int (length d)) ops"
| "ops_ok l (Pop n # ops) = (int n \<le> l \<and> ops_ok (l - int n) ops)"

fun pushed :: "bufOp list \<Rightarrow> Buffer" where
  "pushed [] = []"
| "pushed (Push d # ops) = d @ pushed ops"
| "pushed (Pop n # ops) = pushed ops"

fun evicted :: "bufOp list \<Rightarrow> nat" where
  "evicted [] = 0"
| "evicted (Push d # ops) = evicted ops"
| "evicted (Pop n # ops) = n + evicted ops"

subsection \<open>Numbers and strings\<close>

text \<open>\<open>parseInt(s)\<close> with no radix: leading white space is skipped, a sign is read, a
  \<open>0x\<close> prefix selects base 16, and the longest run of digits is the value; \<open>NaN\<close>
  (\<open>None\<close>) when there is no digit. White space is the set of JavaScript white-space code
  points below 256; a decoded string is its bytes (exact for \<open>latin1\<close>, and for \<open>utf8\<close> on
  ASCII text). The value is exact: JavaScript rounds it beyond \<open>2^53\<close> and gives
  \<open>Infinity\<close> beyond the range of a double. Sign and \<open>NaN\<close> are as in JavaScript.\<close>

definition isWhiteSpace :: "char \<Rightarrow> bool" where
  "isWhiteSpace c = ((of_char c :: nat) \<in> {9, 10, 11, 12, 13, 32, 160})"

definition digitValue :: "char \<Rightarrow> nat option" where
  "digitValue c =
     (let n = (of_char c :: nat) in
      if 48 \<le> n \<and> n \<le> 57 then Some (n - 48)
      else if 97 \<le> n \<and> n \<le> 122 then Some (n - 87)
      else if 65 \<le> n \<and> n \<le> 90 then Some (n - 55)
      else None)"

definition isDigitIn :: "nat \<Rightarrow> char \<Rightarrow> bool" where
  "isDigitIn radix c = (case digitValue c of None \<Rightarrow> False | Some v \<Rightarrow> v < radix)"

definition digitNat :: "char \<Rightarrow> nat" where
  "digitNat c = (case digitValue c of None \<Rightarrow> 0 | Some v \<Rightarrow> v)"

definition parseInt :: "string \<Rightarrow> int option" where
  "parseInt s =
     (let s1 = dropWhile isWhiteSpace s;
          sign = (if take 1 s1 = ''-'' then - 1 else 1);
          s2 = (if take 1 s1 = ''-'' \<or> take 1 s1 = ''+'' then drop 1 s1 else s1);
          hex = (take 2 s2 = ''0x'' \<or> take 2 s2 = ''0X'');
          radix = (if hex then 16 else 10);
          s3 = (if hex then drop 2 s2 else s2);
          ds = takeWhile (isDigitIn radix) s3
      in if ds = [] then None
         else Some (sign * int (foldl (\<lambda>a c. a * radix + digitNat c) 0 ds)))"

definition parseDec :: "string \<Rightarrow> int option" where
  "parseDec decimal = parseInt decimal"

text \<open>\<open>n.toString(radix)\<close> and the template literal \<open>`${n}`\<close> for an integer \<open>n\<close>, in
  positional digits (JavaScript prints base 10 in exponent form from \<open>10^21\<close> up).\<close>

definition digitChar :: "nat \<Rightarrow> char" where
  "digitChar n = (if n < 10 then char_of (48 + n) else char_of (87 + n))"

function toStringRadix :: "nat \<Rightarrow> nat \<Rightarrow> string" where
  "toStringRadix radix n =
     (if n < radix \<or> radix < 2 then [digitChar n]
      else toStringRadix radix (n div radix) @ [digitChar (n mod radix)])"
  by pat_completeness auto
termination
  by (relation "measure (\<lambda>(radix, n). n)") auto

declare toStringRadix.simps [simp del]

definition numToString :: "nat \<Rightarrow> int \<Rightarrow> string" where
  "numToString radix n =
     (if n < 0 then ''-'' @ toStringRadix radix (nat (- n)) else toStringRadix radix (nat n))"

subsection \<open>http_server: the request and its parser\<close>

definition kMaxHeaderLen :: int where
  "kMaxHeaderLen = 1024 * 8"

record HTTPReq =
  "method" :: string
  uri :: Buffer
  version :: string
  headers :: "Buffer list"

text \<open>\<open>splitLines\<close>: the loop state is \<open>idx1\<close>; \<open>idx2\<close> is recomputed from it.\<close>

function splitLines_loop :: "Buffer \<Rightarrow> int \<Rightarrow> Buffer list" where
  "splitLines_loop d idx1 =
     (let idx2 = indexOf (subarray d idx1 (int (length d))) CRLF in
      if idx2 \<ge> 0
      then subarray d idx1 (idx1 + idx2 + 1) # splitLines_loop d (idx1 + idx2 + 2)
      else [])"
  by pat_completeness auto
termination
proof (relation "measure (\<lambda>(d, idx1). nat (int (length d) - idx1))")
  show "wf (measure (\<lambda>(d, idx1). nat (int (length d) - idx1)))" by simp
next
  fix d :: Buffer and idx1 x :: int
  assume x: "x = indexOf (subarray d idx1 (int (length d))) CRLF" and pos: "0 \<le> x"
  have "subarray d idx1 (int (length d)) \<noteq> []"
  proof
    assume "subarray d idx1 (int (length d)) = []"
    with x pos show False by simp
  qed
  then have "adjustOffset idx1 (length d) < length d"
    by (simp add: subarray_def Let_def)
  then have "idx1 < int (length d)"
    by (simp add: adjustOffset_def split: if_splits)
  with pos show "((d, idx1 + x + 2), (d, idx1)) \<in> measure (\<lambda>(d, idx1). nat (int (length d) - idx1))"
    by simp
qed

declare splitLines_loop.simps [simp del]

definition splitLines :: "Buffer \<Rightarrow> Buffer list" where
  "splitLines d = splitLines_loop d 0"

definition parseRequestLine :: "Buffer \<Rightarrow> error + (string \<times> Buffer \<times> string)" where
  "parseRequestLine d =
     (let methodIdx = indexOf (subarray d 0 (int (length d))) '' '' in
      if methodIdx < 0 then Inl (HTTPError 400 ''No method in request line'')
      else
        let method = subarray d 0 methodIdx;
            uriIdx = indexOf (subarray d (methodIdx + 1) (int (length d))) '' ''
        in if uriIdx < 0 then Inl (HTTPError 400 ''No uri in request line'')
           else
             let uri = subarray d (methodIdx + 1) (methodIdx + uriIdx + 1);
                 version = subarray d (methodIdx + uriIdx + 2) (int (length d))
             in Inr (method, uri, version))"

definition validateHeader :: "Buffer \<Rightarrow> bool" where
  "validateHeader d = (indexOf (subarray d 0 (int (length d))) '':'' \<ge> 0)"

text \<open>The \<open>for\<close> loop of \<open>parseHTTPReq\<close> over the lines \<open>1 \<le> i < lines.length - 1\<close>: the
  first line that fails \<open>validateHeader\<close> throws.\<close>

fun parseFields :: "Buffer list \<Rightarrow> error + Buffer list" where
  "parseFields [] = Inr []"
| "parseFields (h # rest) =
     (if \<not> validateHeader h then Inl (HTTPError 400 ''bad field'')
      else case parseFields rest of Inl e \<Rightarrow> Inl e | Inr hs \<Rightarrow> Inr (h # hs))"

text \<open>\<open>parseHTTPReq\<close>. With no line at all \<open>lines[0]\<close> is \<open>undefined\<close> and
  \<open>parseRequestLine\<close> raises a type error. \<open>console.assert\<close> only logs, so the assertion
  on the last line is not part of the result; its condition is \<open>parseHTTPReq_assertion\<close>.\<close>

definition parseHTTPReq :: "Buffer \<Rightarrow> error + HTTPReq" where
  "parseHTTPReq d =
     (let lines = splitLines d in
      case lines of
        [] \<Rightarrow> Inl TypeError
      | l0 # _ \<Rightarrow>
          (case parseRequestLine l0 of
             Inl e \<Rightarrow> Inl e
           | Inr (m, u, v) \<Rightarrow>
               (case parseFields (butlast (tl lines)) of
                  Inl e \<Rightarrow> Inl e
                | Inr hs \<Rightarrow> Inr \<lparr>method = m, uri = u, version = v, headers = hs\<rparr>)))"

definition parseHTTPReq_assertion :: "Buffer \<Rightarrow> bool option" where
  "parseHTTPReq_assertion d =
     (case splitLines d of [] \<Rightarrow> None | l # ls \<Rightarrow> Some (length (last (l # ls)) = 0))"

text \<open>\<open>cutMessage\<close> returns the request, or \<open>null\<close> (\<open>None\<close>), and the buffer after the
  call; it throws before it changes the buffer.\<close>

definition cutMessage :: "DynBuf \<Rightarrow> error + (HTTPReq option \<times> DynBuf)" where
  "cutMessage buf =
     (let idx = indexOf (subarray (data buf) 0 (dlength buf)) (CRLF @ CRLF) in
      if idx < 0
      then (if dlength buf \<ge> kMaxHeaderLen then Inl (HTTPError 413 ''header is too large'')
            else Inr (None, buf))
      else (case parseHTTPReq (subarray (data buf) 0 (idx + 4)) of
              Inl e \<Rightarrow> Inl e
            | Inr msg \<Rightarrow> Inr (Some msg, bufPop buf (idx + 4))))"

fun fieldGet :: "Buffer list \<Rightarrow> string \<Rightarrow> Buffer option" where
  "fieldGet [] key = None"
| "fieldGet (header # rest) key =
     (let idx = indexOf (subarray header 0 (int (length header))) '':'';
          fieldName = subarray header 0 idx
      in if fieldName = key then Some (subarray header (idx + 2) (int (length header)))
         else fieldGet rest key)"

subsection \<open>socket: the connection\<close>

text \<open>
  The transport is a script: the deliveries the socket will make, in order. When the script
  is used up the peer has closed (the \<open>end\<close> event). \<open>soRead\<close> returns one delivery,
  the empty buffer at end of stream, and rejects once an error event has been seen;
  \<open>ended\<close> and \<open>err\<close> are sticky. \<open>soWrite\<close> appends to the list of buffers handed
  to the socket. Failures reported by \<open>socket.write\<close> itself are not scripted. One read
  is outstanding at a time, so the \<open>reader\<close> slot is always empty between calls.
\<close>

datatype event = Data Buffer | SockError

record TCPConn =
  incoming :: "event list"
  err :: bool
  ended :: bool
  written :: "Buffer list"

text \<open>What an \<open>async\<close> function does: it returns, it throws, or it never settles.\<close>

datatype 'a result = Ok 'a | Throw error | Diverge

definition soRead :: "TCPConn \<Rightarrow> Buffer result \<times> TCPConn" where
  "soRead c =
     (if err c then (Throw IOError, c)
      else if ended c then (Ok [], c)
      else case incoming c of
             [] \<Rightarrow> (Ok [], c\<lparr>ended := True\<rparr>)
           | Data d # rest \<Rightarrow> (Ok d, c\<lparr>incoming := rest\<rparr>)
           | SockError # rest \<Rightarrow> (Throw IOError, c\<lparr>incoming := rest, err := True\<rparr>))"

definition soWrite :: "TCPConn \<Rightarrow> Buffer \<Rightarrow> unit result \<times> TCPConn" where
  "soWrite c d =
     (if err c then (Throw IOError, c)
      else (Ok (), c\<lparr>written := written c @ [d]\<rparr>))"

subsection \<open>The state of one connection and sequencing\<close>

text \<open>\<open>serveClient\<close> owns one buffer and one connection, shared by every reader it
  creates. A function with effects takes this state and returns its outcome and the state
  at that point; \<open>andThen\<close> is \<open>await\<close> followed by the rest of the function.\<close>

record world =
  wbuf :: DynBuf
  wconn :: TCPConn

definition andThen :: "'a result \<times> 's \<Rightarrow> ('a \<Rightarrow> 's \<Rightarrow> 'b result \<times> 's) \<Rightarrow> 'b result \<times> 's" where
  "andThen m f =
     (case m of
        (Ok x, s) \<Rightarrow> f x s
      | (Throw e, s) \<Rightarrow> (Throw e, s)
      | (Diverge, s) \<Rightarrow> (Diverge, s))"

definition soReadW :: "world \<Rightarrow> Buffer result \<times> world" where
  "soReadW w = (case soRead (wconn w) of (r, c) \<Rightarrow> (r, w\<lparr>wconn := c\<rparr>))"

definition soWriteW :: "Buffer \<Rightarrow> world \<Rightarrow> unit result \<times> world" where
  "soWriteW d w = (case soWrite (wconn w) d of (r, c) \<Rightarrow> (r, w\<lparr>wconn := c\<rparr>))"

definition bufPushW :: "Buffer \<Rightarrow> world \<Rightarrow> unit result \<times> world" where
  "bufPushW d w =
     (case bufPush (wbuf w) d of
        Inl e \<Rightarrow> (Throw e, w)
      | Inr b \<Rightarrow> (Ok (), w\<lparr>wbuf := b\<rparr>))"

definition bufPopW :: "int \<Rightarrow> world \<Rightarrow> world" where
  "bufPopW n w = w\<lparr>wbuf := bufPop (wbuf w) n\<rparr>"

subsection \<open>http_server: body readers\<close>

text \<open>
  A \<open>BodyReader\<close> is a declared \<open>length\<close> and a \<open>read\<close> closure over private state.
  The four constructors are the four functions that build one; each carries the variables
  its closure captured. \<open>ConnLength len remain\<close>: \<open>readerFromConnLength\<close>, the declared
  length and the mutable \<open>remain\<close>. \<open>FromMemory d done\<close>: \<open>readerFromMemory\<close>.
  A generator is the point where it is suspended: \<open>readChunks\<close> before its first
  \<open>next()\<close> is at the test of the outer loop with \<open>last = false\<close>, and later at the
  \<open>yield\<close>, from which it resumes at the test of the inner loop; \<open>countSheep\<close> is at
  the test \<open>i < 100\<close> (the timer only delays). A generator that returned or threw is
  \<open>Completed\<close>.
\<close>

datatype chunkPC = OuterTest bool | InnerTest "int option" bool

datatype generator = ReadChunks chunkPC | CountSheep nat | Completed

datatype BodyReader =
    ConnLength int int
  | ConnEOF
  | FromGenerator generator
  | FromMemory Buffer bool

fun rlength :: "BodyReader \<Rightarrow> int" where
  "rlength (ConnLength len remain) = len"
| "rlength ConnEOF = 0"
| "rlength (FromGenerator g) = - 1"
| "rlength (FromMemory d done) = int (length d)"

definition readerFromConnLength :: "int \<Rightarrow> BodyReader" where
  "readerFromConnLength remain = ConnLength remain remain"

definition readerFromConnEOF :: BodyReader where
  "readerFromConnEOF = ConnEOF"

definition readerFromGenerator :: "generator \<Rightarrow> BodyReader" where
  "readerFromGenerator gen = FromGenerator gen"

definition readerFromMemory :: "Buffer \<Rightarrow> BodyReader" where
  "readerFromMemory d = FromMemory d False"

definition readChunks :: generator where
  "readChunks = ReadChunks (OuterTest False)"

definition countSheep :: generator where
  "countSheep = CountSheep 0"

text \<open>\<open>read\<close> of the fixed-length reader: the chunk and the new \<open>remain\<close>.\<close>

definition readConnLength :: "int \<Rightarrow> world \<Rightarrow> (Buffer \<times> int) result \<times> world" where
  "readConnLength remain w =
     (if remain = 0 then (Ok ([], remain), w)
      else
        andThen
          (if dlength (wbuf w) = 0
           then andThen (soReadW w) (\<lambda>d w.
                andThen (bufPushW d w) (\<lambda>_ w.
                  if length d = 0 then (Throw (Error ''Unexpected EOF from HTTP body''), w)
                  else (Ok (), w)))
           else (Ok (), w))
          (\<lambda>_ w.
             let consume = min (dlength (wbuf w)) remain;
                 remain' = remain - consume;
                 d = subarray (data (wbuf w)) 0 consume
             in (Ok (d, remain'), bufPopW consume w)))"

text \<open>\<open>read\<close> of the read-until-close reader: the \<open>do ... while\<close> loop, one unit of fuel
  for each iteration, then \<open>return buf.data\<close>.\<close>

primrec readConnEOF :: "nat \<Rightarrow> world \<Rightarrow> Buffer result \<times> world" where
  "readConnEOF 0 w = (Diverge, w)"
| "readConnEOF (Suc n) w =
     andThen (soReadW w) (\<lambda>d w.
     andThen (bufPushW d w) (\<lambda>_ w.
       if length d \<noteq> 0 then readConnEOF n w
       else (Ok (data (wbuf w)), w)))"

definition bufExpectMore :: "world \<Rightarrow> unit result \<times> world" where
  "bufExpectMore w =
     andThen (soReadW w) (\<lambda>d w.
       if length d = 0 then (Throw (Error ''Unexpected EOF''), w)
       else bufPushW d w)"

text \<open>\<open>gen.next()\<close>: the value yielded, or \<open>done\<close>.\<close>

datatype iterResult = Yield Buffer | Done

text \<open>
  The generator \<open>readChunks\<close>, run from a suspension point to the next \<open>yield\<close>, to its
  return, or to a throw. Each test of a loop condition takes one unit of fuel; \<open>fin\<close>
  is the variable \<open>last\<close>. \<open>remain\<close>
  is a JavaScript number, \<open>None\<close> for \<open>NaN\<close>: \<open>NaN === 0\<close> and \<open>NaN > 0\<close> are false.
  The size line is decoded byte for byte, which is \<open>toString()\<close> on an ASCII size line.
\<close>

fun readChunks_run ::
  "nat \<Rightarrow> chunkPC \<Rightarrow> world \<Rightarrow> (iterResult \<times> generator) result \<times> world" where
  "readChunks_run 0 pc w = (Diverge, w)"
| "readChunks_run (Suc n) (OuterTest fin) w =
     (if fin then (Ok (Done, Completed), w)
      else
        let idx = indexOf (subarray (data (wbuf w)) 0 (dlength (wbuf w))) CRLF in
        if idx < 0 then readChunks_run n (OuterTest fin) w
        else
          let remain = parseDec (subarray (data (wbuf w)) 0 idx);
              w1 = bufPopW (idx + 2) w;
              fin = (remain = Some 0)
          in readChunks_run n (InnerTest remain fin) w1)"
| "readChunks_run (Suc n) (InnerTest remain fin) w =
     (case remain of
        None \<Rightarrow> readChunks_run n (OuterTest fin) (bufPopW 2 w)
      | Some r \<Rightarrow>
          if r > 0
          then
            andThen (if dlength (wbuf w) = 0 then bufExpectMore w else (Ok (), w)) (\<lambda>_ w.
              let consume = min r (dlength (wbuf w));
                  d = subarray (data (wbuf w)) 0 consume;
                  w1 = bufPopW consume w;
                  r' = r - consume
              in (Ok (Yield d, ReadChunks (InnerTest (Some r') fin)), w1))
          else readChunks_run n (OuterTest fin) (bufPopW 2 w))"

definition countSheep_run :: "nat \<Rightarrow> iterResult \<times> generator" where
  "countSheep_run i =
     (if i < 100 then (Yield (numToString 10 (int i) @ [CHR 0x0A]), CountSheep (i + 1))
      else (Done, Completed))"

definition gen_next :: "nat \<Rightarrow> generator \<Rightarrow> world \<Rightarrow> (iterResult \<times> generator) result \<times> world" where
  "gen_next n g w =
     (case g of
        ReadChunks pc \<Rightarrow> readChunks_run n pc w
      | CountSheep i \<Rightarrow> (Ok (countSheep_run i), w)
      | Completed \<Rightarrow> (Ok (Done, Completed), w))"

text \<open>\<open>reader.read()\<close>: the chunk and the reader afterwards.\<close>

definition read :: "nat \<Rightarrow> BodyReader \<Rightarrow> world \<Rightarrow> (Buffer \<times> BodyReader) result \<times> world" where
  "read n r w =
     (case r of
        ConnLength len remain \<Rightarrow>
          andThen (readConnLength remain w) (\<lambda>(d, remain') w. (Ok (d, ConnLength len remain'), w))
      | ConnEOF \<Rightarrow>
          andThen (readConnEOF n w) (\<lambda>d w. (Ok (d, ConnEOF), w))
      | FromGenerator gen \<Rightarrow>
          andThen (gen_next n gen w) (\<lambda>(res, gen') w.
            case res of
              Done \<Rightarrow> (Ok ([], FromGenerator gen'), w)
            | Yield v \<Rightarrow> (Ok (v, FromGenerator gen'), w))
      | FromMemory d done \<Rightarrow>
          if done then (Ok ([], FromMemory d done), w)
          else (Ok (d, FromMemory d True), w))"

text \<open>\<open>readerFromReq\<close>. \<open>bodyLen\<close> is \<open>-1\<close> or the parsed \<open>Content-Length\<close>; a buffer is
  truthy even when empty, so every \<open>Content-Length\<close> field is parsed.\<close>

definition readerFromReq :: "HTTPReq \<Rightarrow> error + BodyReader" where
  "readerFromReq req =
     (case (case fieldGet (headers req) ''Content-Length'' of
              None \<Rightarrow> Inr (- 1)
            | Some contentLen \<Rightarrow>
                (case parseDec contentLen of
                   None \<Rightarrow> Inl (HTTPError 400 ''bad Content-Length.'')
                 | Some n \<Rightarrow> Inr n)) of
        Inl e \<Rightarrow> Inl e
      | Inr bodyLen \<Rightarrow>
          let bodyAllowed = \<not> (method req = ''GET'' \<or> method req = ''HEAD'');
              chunked = (case fieldGet (headers req) ''Transfer-Encoding'' of
                           None \<Rightarrow> False
                         | Some v \<Rightarrow> v = ''chunked'')
          in if \<not> bodyAllowed \<and> (bodyLen > 0 \<or> chunked)
             then Inl (HTTPError 400 ''HTTP body not allowed.'')
             else
               let bodyLen' = (if \<not> bodyAllowed then 0 else bodyLen) in
               if bodyLen' \<ge> 0 then Inr (readerFromConnLength bodyLen')
               else if chunked then Inr (readerFromGenerator readChunks)
               else Inr readerFromConnEOF)"

subsection \<open>http_server: responses\<close>

text \<open>The body of a response is the request's own reader (\<open>/echo\<close> answers with the very
  object it was given) or a reader of its own.\<close>

datatype bodyRef = ReqBody | Own BodyReader

record HTTPRes =
  code :: int
  rheaders :: "Buffer list"
  body :: bodyRef

definition handleReq :: "HTTPReq \<Rightarrow> HTTPRes" where
  "handleReq req =
     \<lparr>code = 200,
      rheaders = [''Server: my_first_http_server''],
      body = (if uri req = ''/echo'' then ReqBody
              else if uri req = ''/sheep'' then Own (readerFromGenerator countSheep)
              else Own (readerFromMemory (''hello world.'' @ [CHR 0x0A])))\<rparr>"

definition encodeHTTPResp :: "int \<Rightarrow> Buffer list \<Rightarrow> error + Buffer" where
  "encodeHTTPResp c hs =
     (case (if c = 200 then Inr ''OK''
            else if c = 400 then Inr ''Bad Request''
            else if c = 413 then Inr ''Request Entity Too Large''
            else if c = 501 then Inr ''Not Implemented''
            else Inl (Error ''Unknown status code'')) of
        Inl e \<Rightarrow> Inl e
      | Inr reason \<Rightarrow>
          Inr (''HTTP/1.1 '' @ numToString 10 c @ '' '' @ reason @ CRLF
               @ concat (map (\<lambda>h. h @ CRLF) hs) @ CRLF))"

text \<open>The loop \<open>while (!last)\<close> of \<open>writeHTTPResp\<close>, one unit of fuel for each iteration;
  it returns the reader as the loop left it.\<close>

primrec writeBody :: "nat \<Rightarrow> BodyReader \<Rightarrow> world \<Rightarrow> BodyReader result \<times> world" where
  "writeBody 0 r w = (Diverge, w)"
| "writeBody (Suc n) r w =
     andThen (read n r w) (\<lambda>(d, r') w.
       let fin = (length d = 0);
           d' = (if rlength r < 0
                 then numToString 16 (int (length d)) @ CRLF @ d @ CRLF
                 else d)
       in andThen (if length d' \<noteq> 0 then soWriteW d' w else (Ok (), w)) (\<lambda>_ w.
            if fin then (Ok r', w) else writeBody n r' w))"

text \<open>\<open>writeHTTPResp(conn, resp)\<close> for a response with status \<open>c\<close>, headers \<open>hs\<close> and
  body \<open>r\<close>.\<close>

definition writeHTTPResp ::
  "nat \<Rightarrow> int \<Rightarrow> Buffer list \<Rightarrow> BodyReader \<Rightarrow> world \<Rightarrow> BodyReader result \<times> world" where
  "writeHTTPResp n c hs r w =
     (let hs' = (if rlength r < 0 then hs @ [''Transfer-Encoding: chunked'']
                 else hs @ [''Content-Length: '' @ numToString 10 (rlength r)])
      in case encodeHTTPResp c hs' of
           Inl e \<Rightarrow> (Throw e, w)
         | Inr enc \<Rightarrow> andThen (soWriteW enc w) (\<lambda>_ w. writeBody n r w))"

subsection \<open>http_server: the server loop\<close>

text \<open>\<open>while ((await reqBody.read()).length > 0) {}\<close>.\<close>

primrec drainBody :: "nat \<Rightarrow> BodyReader \<Rightarrow> world \<Rightarrow> unit result \<times> world" where
  "drainBody 0 r w = (Diverge, w)"
| "drainBody (Suc n) r w =
     andThen (read n r w) (\<lambda>(d, r') w.
       if length d > 0 then drainBody n r' w else (Ok (), w))"

text \<open>The loop \<open>while (true)\<close> of \<open>serveClient\<close>, one unit of fuel for each iteration.
  When the response body is the request's reader, writing the response advances that
  reader, and the drain loop continues from there.\<close>

primrec serveClient_loop :: "nat \<Rightarrow> world \<Rightarrow> unit result \<times> world" where
  "serveClient_loop 0 w = (Diverge, w)"
| "serveClient_loop (Suc n) w =
     (case cutMessage (wbuf w) of
        Inl e \<Rightarrow> (Throw e, w)
      | Inr (None, b) \<Rightarrow>
          andThen (soReadW w) (\<lambda>d w.
          andThen (bufPushW d w) (\<lambda>_ w.
            if length d = 0 \<and> dlength (wbuf w) = 0 then (Ok (), w)
            else if length d = 0 then (Throw (HTTPError 400 ''Expected EOF.''), w)
            else serveClient_loop n w))
      | Inr (Some msg, b) \<Rightarrow>
          (case readerFromReq msg of
             Inl e \<Rightarrow> (Throw e, w\<lparr>wbuf := b\<rparr>)
           | Inr reqBody \<Rightarrow>
               let res = handleReq msg;
                   r = (case body res of ReqBody \<Rightarrow> reqBody | Own own \<Rightarrow> own)
               in andThen (writeHTTPResp n (code res) (rheaders res) r (w\<lparr>wbuf := b\<rparr>)) (\<lambda>r' w.
                    if version msg = ''1.0'' then (Ok (), w)
                    else
                      let reqBody' = (case body res of ReqBody \<Rightarrow> r' | Own own \<Rightarrow> reqBody)
                      in andThen (drainBody n reqBody' w) (\<lambda>_ w. serveClient_loop n w))))"

definition serveClient :: "nat \<Rightarrow> TCPConn \<Rightarrow> unit result \<times> world" where
  "serveClient n c = serveClient_loop n \<lparr>wbuf = \<lparr>data = alloc 0, dlength = 0\<rparr>, wconn = c\<rparr>"

subsection \<open>The chunks of a body\<close>

text \<open>What a body yields: \<open>readAll\<close> calls \<open>read\<close> until it returns the empty chunk and
  collects the chunks before it, one unit of fuel for each call; it returns the reader and
  the state as the last call left them. \<open>wrote x w\<close> is the state \<open>w\<close> after the
  buffers \<open>x\<close> were handed to the socket.\<close>

primrec readAll :: "nat \<Rightarrow> BodyReader \<Rightarrow> world \<Rightarrow> (Buffer list \<times> BodyReader) result \<times> world" where
  "readAll 0 r w = (Diverge, w)"
| "readAll (Suc n) r w =
     andThen (read n r w) (\<lambda>(d, r') w.
       if length d = 0 then (Ok ([], r'), w)
       else andThen (readAll n r' w) (\<lambda>(ds, r'') w. (Ok (d # ds, r''), w)))"

definition wrote :: "Buffer list \<Rightarrow> world \<Rightarrow> world" where
  "wrote x w = w\<lparr>wconn := (wconn w)\<lparr>written := written (wconn w) @ x\<rparr>\<rparr>"

subsection \<open>Scripted connections\<close>

text \<open>A fresh connection on which the peer makes the given deliveries and then closes.\<close>

definition connOf :: "Buffer list \<Rightarrow> TCPConn" where
  "connOf ds = \<lparr>incoming = map Data ds, err = False, ended = False, written = []\<rparr>"

text \<open>The request \<open>serveClient\<close> cuts from the first delivery of a connection, with the
  state in which its body reader is created: the first iteration finds the empty buffer
  incomplete, reads and appends one delivery, and the second iteration calls
  \<open>cutMessage\<close>.\<close>

definition firstRequest :: "TCPConn \<Rightarrow> (HTTPReq \<times> world) option" where
  "firstRequest c =
     (case soRead c of
        (Ok d, c') \<Rightarrow>
          (case bufPush \<lparr>data = alloc 0, dlength = 0\<rparr> d of
             Inr b \<Rightarrow>
               (case cutMessage b of
                  Inr (Some msg, b') \<Rightarrow> Some (msg, \<lparr>wbuf = b', wconn = c'\<rparr>)
                | Inr (None, b') \<Rightarrow> None
                | Inl e \<Rightarrow> None)
           | Inl e \<Rightarrow> None)
      | (Throw e, c') \<Rightarrow> None
      | (Diverge, c') \<Rightarrow> None)"

section \<open>Properties of the dynamic buffer\<close>

lemma grow_cap_ge: "0 < c \<Longrightarrow> n \<le> grow_cap c n \<and> c \<le> grow_cap c n"
proof (induction c n rule: grow_cap.induct)
  case (1 cap newLen)
  show ?case
  proof (cases "cap < newLen")
    case True
    with 1 have "newLen \<le> grow_cap (cap * 2) newLen \<and> cap * 2 \<le> grow_cap (cap * 2) newLen" by simp
    with True 1(2) show ?thesis by (subst (1 2) grow_cap.simps) simp
  next
    case False
    then show ?thesis by (subst (1 2) grow_cap.simps) simp
  qed
qed

lemma grow_cap_pow: "0 < c \<Longrightarrow> \<exists>k. grow_cap c n = c * 2 ^ k \<and> (0 < k \<longrightarrow> c * 2 ^ (k - 1) < n)"
proof (induction c n rule: grow_cap.induct)
  case (1 cap newLen)
  show ?case
  proof (cases "cap < newLen")
    case True
    with 1 obtain k where k: "grow_cap (cap * 2) newLen = cap * 2 * 2 ^ k" "0 < k \<longrightarrow> cap * 2 * 2 ^ (k - 1) < newLen"
      by auto
    have "grow_cap cap newLen = cap * 2 ^ (Suc k)" using True 1(2) k(1) by (subst grow_cap.simps) simp
    moreover have "cap * 2 ^ (Suc k - 1) < newLen"
    proof (cases k)
      case 0 then show ?thesis using True by simp
    next
      case (Suc m) then show ?thesis using k(2) by (simp add: mult.assoc)
    qed
    ultimately show ?thesis by blast
  next
    case False
    then have "grow_cap cap newLen = cap * 2 ^ 0" by (subst grow_cap.simps) simp
    then show ?thesis by blast
  qed
qed

lemma copy_ok:
  assumes "0 \<le> t" "nat t + length src \<le> length target"
  shows "\<exists>r. copy src target t = Inr r \<and> length r = length target
           \<and> take (nat t + length src) r = take (nat t) target @ src"
proof -
  have nb: "min (length src) (length target - nat t) = length src" using assms by simp
  have "copy src target t = Inr (take (nat t) target @ src @ drop (nat t + length src) target)"
    using assms(1) nb by (simp add: copy_def Let_def)
  moreover have "length (take (nat t) target @ src @ drop (nat t + length src) target) = length target"
    using assms(2) by simp
  moreover have "take (nat t + length src) (take (nat t) target @ src @ drop (nat t + length src) target)
       = take (nat t) target @ src"
    using assms(2) by simp
  ultimately show ?thesis by blast
qed

lemma bufPush_wf:
  assumes "wf_buf b"
  shows "\<exists>b'. bufPush b d = Inr b' \<and> valid b' = valid b @ d \<and> wf_buf b'
          \<and> dlength b' = dlength b + int (length d) \<and> capacity b \<le> capacity b'
          \<and> capacity b' = (if capacity b < dlength b + int (length d)
                            then grow_cap (max (capacity b) 32) (dlength b + int (length d))
                            else capacity b)"
proof -
  let ?newLen = "dlength b + int (length d)"
  let ?cap = "grow_cap (max (int (length (data b))) 32) ?newLen"
  define L where "L = nat (dlength b)"
  from assms have l: "0 \<le> dlength b" "L \<le> length (data b)" "dlength b = int L"
    by (auto simp: wf_buf_def L_def)
  have step: "\<exists>b'. (case copy d store (dlength b) of Inl e \<Rightarrow> Inl e
                     | Inr store' \<Rightarrow> Inr \<lparr>data = store', dlength = ?newLen\<rparr>) = Inr b'
                 \<and> valid b' = valid b @ d \<and> wf_buf b' \<and> dlength b' = ?newLen
                 \<and> capacity b' = int (length store)"
    if st: "L + length d \<le> length store" "take L store = take L (data b)" for store
  proof -
    from copy_ok [of "dlength b" d store] l st
    obtain r where r: "copy d store (dlength b) = Inr r" "length r = length store"
      "take (L + length d) r = take L store @ d" by auto
    have "take (nat ?newLen) r = take L (data b) @ d"
      using r(3) st(2) l by (simp add: nat_add_distrib)
    then show ?thesis using r(1,2) l(3) st(1)
      by (simp add: valid_def wf_buf_def capacity_def)
  qed
  show ?thesis
  proof (cases "int (length (data b)) < ?newLen")
    case True
    have g: "?newLen \<le> ?cap" "int (length (data b)) \<le> ?cap"
      using grow_cap_ge [of "max (int (length (data b))) 32" ?newLen] by auto
    have la: "length (alloc ?cap) = nat ?cap" by (simp add: alloc_def)
    have "length (data b) \<le> length (alloc ?cap)" using g la by linarith
    with copy_ok [of 0 "data b" "alloc ?cap"] la
    obtain store where s: "copy (data b) (alloc ?cap) 0 = Inr store" "length store = nat ?cap"
      "take (length (data b)) store = data b" by auto
    have "take L store = take L (take (length (data b)) store)" using l by (simp add: min_def)
    then have t: "take L store = take L (data b)" using s(3) by simp
    have "L + length d \<le> length store" using g l s(2) by linarith
    from step [OF this t] obtain b' where b': "(case copy d store (dlength b) of Inl e \<Rightarrow> Inl e
                     | Inr store' \<Rightarrow> Inr \<lparr>data = store', dlength = ?newLen\<rparr>) = Inr b'"
       "valid b' = valid b @ d" "wf_buf b'" "dlength b' = ?newLen" "capacity b' = int (length store)"
      by blast
    have "bufPush b d = Inr b'" using True s(1) b'(1) by (simp add: bufPush_def Let_def)
    moreover have "capacity b' = ?cap" using b'(5) s(2) g by simp
    ultimately show ?thesis using b'(2,3,4) True g(2) by (simp add: capacity_def)
  next
    case False
    then have "L + length d \<le> length (data b)" using l by linarith
    from step [OF this refl] obtain b' where b': "(case copy d (data b) (dlength b) of Inl e \<Rightarrow> Inl e
                     | Inr store' \<Rightarrow> Inr \<lparr>data = store', dlength = ?newLen\<rparr>) = Inr b'"
       "valid b' = valid b @ d" "wf_buf b'" "dlength b' = ?newLen" "capacity b' = int (length (data b))"
      by blast
    have "bufPush b d = Inr b'" using False b'(1) by (simp add: bufPush_def Let_def)
    then show ?thesis using b'(2,3,4,5) False by (simp add: capacity_def)
  qed
qed

lemma bufPop_wf:
  assumes "wf_buf b" "0 \<le> n" "n \<le> dlength b"
  shows "valid (bufPop b n) = drop (nat n) (valid b) \<and> wf_buf (bufPop b n)
         \<and> capacity (bufPop b n) = capacity b \<and> dlength (bufPop b n) = dlength b - n"
proof -
  define L where "L = nat (dlength b)"
  define k where "k = nat n"
  from assms have l: "L \<le> length (data b)" "k \<le> L" "dlength b = int L" "n = int k"
    by (auto simp: wf_buf_def L_def k_def)
  have a: "adjustOffset 0 (length (data b)) = 0" "adjustOffset n (length (data b)) = k"
    "adjustOffset (dlength b) (length (data b)) = L"
    using l by (simp_all add: adjustOffset_def)
  have c: "copyWithin (data b) 0 n (dlength b) = take (L - k) (drop k (data b)) @ drop (L - k) (data b)"
    unfolding copyWithin_def Let_def a using l(1,2) by simp
  have d: "dlength (bufPop b n) = int (L - k)" using l by (simp add: bufPop_def)
  have "valid (bufPop b n) = take (L - k) (take (L - k) (drop k (data b)) @ drop (L - k) (data b))"
    by (simp add: valid_def d) (simp add: bufPop_def c)
  also have "\<dots> = take (L - k) (drop k (data b))" using l by simp
  also have "\<dots> = drop k (take L (data b))" using l by (simp add: drop_take)
  finally have v: "valid (bufPop b n) = drop (nat n) (valid b)" by (simp add: valid_def L_def k_def)
  have len: "length (data (bufPop b n)) = length (data b)" using l(1,2) by (simp add: bufPop_def c)
  have "dlength (bufPop b n) = dlength b - n" by (simp add: bufPop_def)
  then show ?thesis using v len d l(1,2) by (simp add: wf_buf_def capacity_def)
qed


lemma length_valid: "wf_buf b \<Longrightarrow> length (valid b) = nat (dlength b)"
  by (auto simp: wf_buf_def valid_def)

lemma run_ops_ok:
  "wf_buf b \<Longrightarrow> ops_ok (dlength b) ops \<Longrightarrow>
   \<exists>b'. run_ops b ops = Inr b' \<and> wf_buf b'
       \<and> valid b' = drop (evicted ops) (valid b @ pushed ops)
       \<and> capacity b \<le> capacity b'
       \<and> dlength b' = dlength b + int (length (pushed ops)) - int (evicted ops)"
proof (induction ops arbitrary: b)
  case Nil
  then show ?case by simp
next
  case (Cons x ops)
  show ?case
  proof (cases x)
    case (Push d)
    from bufPush_wf [OF Cons.prems(1), of d] obtain b1 where b1: "bufPush b d = Inr b1"
      "valid b1 = valid b @ d" "wf_buf b1" "dlength b1 = dlength b + int (length d)"
      "capacity b \<le> capacity b1" by blast
    from Cons.prems(2) Push b1(4) have "ops_ok (dlength b1) ops" by simp
    from Cons.IH [OF b1(3) this] obtain b' where b': "run_ops b1 ops = Inr b'" "wf_buf b'"
      "valid b' = drop (evicted ops) (valid b1 @ pushed ops)" "capacity b1 \<le> capacity b'"
      "dlength b' = dlength b1 + int (length (pushed ops)) - int (evicted ops)" by blast
    show ?thesis using Push b1 b' by simp
  next
    case (Pop n)
    from Cons.prems(2) Pop have n: "int n \<le> dlength b" "ops_ok (dlength b - int n) ops" by simp_all
    from bufPop_wf [OF Cons.prems(1) _ n(1)] have b1: "valid (bufPop b (int n)) = drop n (valid b)"
      "wf_buf (bufPop b (int n))" "capacity (bufPop b (int n)) = capacity b"
      "dlength (bufPop b (int n)) = dlength b - int n" by simp_all
    from n(2) b1(4) have "ops_ok (dlength (bufPop b (int n))) ops" by simp
    from Cons.IH [OF b1(2) this] obtain b' where b': "run_ops (bufPop b (int n)) ops = Inr b'" "wf_buf b'"
      "valid b' = drop (evicted ops) (valid (bufPop b (int n)) @ pushed ops)"
      "capacity (bufPop b (int n)) \<le> capacity b'"
      "dlength b' = dlength (bufPop b (int n)) + int (length (pushed ops)) - int (evicted ops)" by blast
    have "n \<le> length (valid b)" using n(1) length_valid [OF Cons.prems(1)] by linarith
    then have "drop (evicted ops) (drop n (valid b) @ pushed ops) = drop (n + evicted ops) (valid b @ pushed ops)"
      by (simp add: add.commute)
    then show ?thesis using Pop b1 b' by simp
  qed
qed

lemma run_ops_append:
  "run_ops b (xs @ ys) = (case run_ops b xs of Inl e \<Rightarrow> Inl e | Inr b' \<Rightarrow> run_ops b' ys)"
proof (induction xs arbitrary: b)
  case Nil
  then show ?case by simp
next
  case (Cons x xs)
  then show ?case by (cases x) (simp_all split: sum.splits)
qed

lemma ops_ok_append:
  "ops_ok l (xs @ ys) = (ops_ok l xs \<and> ops_ok (l + int (length (pushed xs)) - int (evicted xs)) ys)"
proof (induction xs arbitrary: l)
  case Nil
  then show ?case by simp
next
  case (Cons x xs)
  then show ?case by (cases x) (simp_all add: algebra_simps)
qed

text \<open>
  Claim C9. Run any sequence of appends and front evictions from a well-formed buffer, no
  eviction asking for more than the buffer holds. Every append succeeds; after \<open>j\<close> steps the
  valid bytes are the initial valid bytes followed by everything appended, with the evicted
  prefix removed; the capacity after \<open>i \<le> j\<close> steps is at most the capacity after \<open>j\<close> steps;
  the logical length never exceeds the capacity; and a further append either keeps the
  store or replaces it by one of \<open>max(capacity, 32) * 2^k\<close> bytes, \<open>k\<close> the least exponent
  that makes room for the new length.
\<close>

theorem ByteBuffer_append_evict:
  assumes "wf_buf b" and "ops_ok (dlength b) ops" and "i \<le> j" and "j \<le> length ops"
  shows "\<exists>bi bj. run_ops b (take i ops) = Inr bi \<and> run_ops b (take j ops) = Inr bj
     \<and> valid bj = drop (evicted (take j ops)) (valid b @ pushed (take j ops))
     \<and> capacity bi \<le> capacity bj \<and> 0 \<le> dlength bj \<and> dlength bj \<le> capacity bj
     \<and> (\<forall>d. \<exists>b' k. bufPush bj d = Inr b' \<and> valid b' = valid bj @ d
            \<and> dlength b' \<le> capacity b'
            \<and> capacity b' = (if capacity bj < dlength bj + int (length d)
                              then max (capacity bj) 32 * 2 ^ k else capacity bj)
            \<and> (0 < k \<longrightarrow> max (capacity bj) 32 * 2 ^ (k - 1) < dlength bj + int (length d)))"
proof -
  have split: "ops = take i ops @ (drop i (take j ops) @ drop j ops)"
    using assms(3) by (metis append_take_drop_id drop_take take_drop append.assoc
        add_diff_cancel_left' le_add_diff_inverse min.absorb2 take_take min_def)
  have ok: "ops_ok (dlength b) (take i ops)" using assms(2) split ops_ok_append by metis
  from run_ops_ok [OF assms(1) ok] obtain bi where bi: "run_ops b (take i ops) = Inr bi" "wf_buf bi"
    "dlength bi = dlength b + int (length (pushed (take i ops))) - int (evicted (take i ops))" by blast
  have "ops_ok (dlength bi) (drop i (take j ops) @ drop j ops)"
    using assms(2) split ops_ok_append bi(3) by metis
  then have ok2: "ops_ok (dlength bi) (drop i (take j ops))" using ops_ok_append by blast
  from run_ops_ok [OF bi(2) ok2] obtain bj where bj: "run_ops bi (drop i (take j ops)) = Inr bj"
    "wf_buf bj" "capacity bi \<le> capacity bj" by blast
  have tj: "take j ops = take i ops @ drop i (take j ops)"
    using assms(3) by (metis append_take_drop_id min.absorb1 take_take)
  have rj: "run_ops b (take j ops) = Inr bj"
    by (subst tj) (simp add: run_ops_append bi(1) bj(1))
  have okj: "ops_ok (dlength b) (take j ops)"
    using assms(2) ops_ok_append [of "dlength b" "take j ops" "drop j ops"] by simp
  from run_ops_ok [OF assms(1) okj] rj
  have vj: "valid bj = drop (evicted (take j ops)) (valid b @ pushed (take j ops))" by auto
  have push: "\<exists>b' k. bufPush bj d = Inr b' \<and> valid b' = valid bj @ d
            \<and> dlength b' \<le> capacity b'
            \<and> capacity b' = (if capacity bj < dlength bj + int (length d)
                              then max (capacity bj) 32 * 2 ^ k else capacity bj)
            \<and> (0 < k \<longrightarrow> max (capacity bj) 32 * 2 ^ (k - 1) < dlength bj + int (length d))" for d
  proof -
    from bufPush_wf [OF bj(2), of d] obtain b' where b': "bufPush bj d = Inr b'"
      "valid b' = valid bj @ d" "wf_buf b'"
      "capacity b' = (if capacity bj < dlength bj + int (length d)
                            then grow_cap (max (capacity bj) 32) (dlength bj + int (length d))
                            else capacity bj)" by blast
    have "0 < max (capacity bj) 32" by simp
    from grow_cap_pow [OF this, of "dlength bj + int (length d)"]
    obtain k where k: "grow_cap (max (capacity bj) 32) (dlength bj + int (length d)) = max (capacity bj) 32 * 2 ^ k"
      "0 < k \<longrightarrow> max (capacity bj) 32 * 2 ^ (k - 1) < dlength bj + int (length d)" by blast
    from b'(3) have "dlength b' \<le> capacity b'" by (simp add: wf_buf_def capacity_def)
    with b' k show ?thesis by metis
  qed
  from bj(2) have "0 \<le> dlength bj" "dlength bj \<le> capacity bj" by (simp_all add: wf_buf_def capacity_def)
  with bi(1) rj vj bj(3) push show ?thesis by blast
qed

theorem ByteBuffer_append_evict_witness:
  "wf_buf \<lparr>data = [], dlength = 0\<rparr>
   \<and> ops_ok (dlength \<lparr>data = [], dlength = 0\<rparr>) [Push ''hello'', Pop 2, Push ''xy'']
   \<and> (\<exists>bi bj. run_ops \<lparr>data = [], dlength = 0\<rparr> [Push ''hello''] = Inr bi
         \<and> run_ops \<lparr>data = [], dlength = 0\<rparr> [Push ''hello'', Pop 2, Push ''xy''] = Inr bj
         \<and> valid bj = ''lloxy'' \<and> capacity bi \<le> capacity bj \<and> dlength bj \<le> capacity bj)"
proof -
  have h1: "wf_buf \<lparr>data = [], dlength = 0\<rparr>" by (simp add: wf_buf_def)
  have h2: "ops_ok (dlength \<lparr>data = [], dlength = 0\<rparr>) [Push ''hello'', Pop 2, Push ''xy'']" by simp
  have h3: "(1::nat) \<le> 3" by simp
  have h4: "3 \<le> length [Push ''hello'', Pop 2, Push ''xy'']" by simp
  from ByteBuffer_append_evict [OF h1 h2 h3 h4]
  obtain bi bj where "run_ops \<lparr>data = [], dlength = 0\<rparr> (take 1 [Push ''hello'', Pop 2, Push ''xy'']) = Inr bi"
    "run_ops \<lparr>data = [], dlength = 0\<rparr> (take 3 [Push ''hello'', Pop 2, Push ''xy'']) = Inr bj"
    "valid bj = drop (evicted (take 3 [Push ''hello'', Pop 2, Push ''xy'']))
        (valid \<lparr>data = [], dlength = 0\<rparr> @ pushed (take 3 [Push ''hello'', Pop 2, Push ''xy'']))"
    "capacity bi \<le> capacity bj" "dlength bj \<le> capacity bj" by blast
  moreover have "drop (evicted (take 3 [Push ''hello'', Pop 2, Push ''xy'']))
        (valid \<lparr>data = [], dlength = 0\<rparr> @ pushed (take 3 [Push ''hello'', Pop 2, Push ''xy''])) = ''lloxy''"
    by (simp add: valid_def)
  moreover have "take 1 [Push ''hello'', Pop 2, Push ''xy''] = [Push ''hello'']" by simp
  moreover have "take 3 [Push ''hello'', Pop 2, Push ''xy''] = [Push ''hello'', Pop 2, Push ''xy'']" by simp
  ultimately show ?thesis using h1 h2 by metis
qed

section \<open>Properties of the request parser\<close>

text \<open>\<open>firstRequest\<close> is what \<open>serveClient\<close> computes: its first iteration reads the
  delivery and appends it to the fresh buffer, and the next iteration starts from that
  buffer, on which \<open>cutMessage\<close> returns the request and the remaining buffer.\<close>

lemma cutMessage_fresh: "cutMessage \<lparr>data = alloc 0, dlength = 0\<rparr> = Inr (None, \<lparr>data = alloc 0, dlength = 0\<rparr>)"
  by (simp add: cutMessage_def alloc_def subarray_def adjustOffset_def kMaxHeaderLen_def)

lemma firstRequest_serveClient:
  assumes "firstRequest c = Some (msg, w)"
  shows "\<exists>d b. soRead c = (Ok d, wconn w) \<and> d \<noteq> []
           \<and> bufPush \<lparr>data = alloc 0, dlength = 0\<rparr> d = Inr b
           \<and> cutMessage b = Inr (Some msg, wbuf w)
           \<and> serveClient (Suc n) c = serveClient_loop n \<lparr>wbuf = b, wconn = wconn w\<rparr>"
proof -
  from assms obtain d c' b b' where p: "soRead c = (Ok d, c')"
    "bufPush \<lparr>data = alloc 0, dlength = 0\<rparr> d = Inr b" "cutMessage b = Inr (Some msg, b')"
    "w = \<lparr>wbuf = b', wconn = c'\<rparr>"
    by (auto simp: firstRequest_def split: prod.splits result.splits sum.splits option.splits)
  have ne: "d \<noteq> []"
  proof
    assume "d = []"
    with p(2) have "b = \<lparr>data = alloc 0, dlength = 0\<rparr>"
      by (simp add: bufPush_def copy_def alloc_def Let_def)
    with p(3) cutMessage_fresh show False by simp
  qed
  have "serveClient (Suc n) c = serveClient_loop n \<lparr>wbuf = b, wconn = c'\<rparr>"
    using p(1,2) ne
    by (simp add: serveClient_def cutMessage_fresh andThen_def soReadW_def bufPushW_def)
  with p ne show ?thesis by simp
qed

text \<open>
  Every line that \<open>splitLines\<close> produces ends with the carriage return of its terminator,
  for every input: the line is cut at \<open>idx1 + idx2 + 1\<close>, and the byte at
  \<open>idx1 + idx2\<close> is the \<open>\r\<close> that \<open>indexOf\<close> found. So the assertion of
  \<open>parseHTTPReq\<close> holds for no block, the version of a parsed request is never
  \<open>1.0\<close>, and no header value of a parsed request is \<open>chunked\<close>.
\<close>

lemma indexOf_found:
  "0 \<le> indexOf xs pat \<Longrightarrow> take (length pat) (drop (nat (indexOf xs pat)) xs) = pat"
proof (induction xs)
  case Nil
  then show ?case by (simp split: if_splits)
next
  case (Cons x xs)
  show ?case
  proof (cases "take (length pat) (x # xs) = pat")
    case True
    then show ?thesis by simp
  next
    case False
    with Cons.prems have k: "0 \<le> indexOf xs pat" "indexOf (x # xs) pat = indexOf xs pat + 1"
      by (simp_all add: Let_def split: if_splits)
    have "nat (indexOf xs pat + 1) = Suc (nat (indexOf xs pat))" using k(1) by simp
    with Cons.IH [OF k(1)] k(2) show ?thesis by simp
  qed
qed

lemma indexOf_CRLF_at:
  assumes "0 \<le> indexOf r CRLF"
  shows "Suc (Suc (nat (indexOf r CRLF))) \<le> length r \<and> r ! nat (indexOf r CRLF) = CHR 0x0D"
proof -
  let ?k = "nat (indexOf r CRLF)"
  from indexOf_found [OF assms] have t: "take (Suc (Suc 0)) (drop ?k r) = CRLF" by simp
  then have "length (take (Suc (Suc 0)) (drop ?k r)) = Suc (Suc 0)" by simp
  then have l: "Suc (Suc ?k) \<le> length r" by simp
  then have "drop ?k r = r ! ?k # drop (Suc ?k) r" by (simp add: Cons_nth_drop_Suc)
  with t have "r ! ?k = CHR 0x0D" by simp
  with l show ?thesis by simp
qed

lemma line_keeps_CR:
  assumes i: "0 \<le> idx1" and f: "0 \<le> indexOf (subarray d idx1 (int (length d))) CRLF"
  shows "subarray d idx1 (idx1 + indexOf (subarray d idx1 (int (length d))) CRLF + 1) \<noteq> []
       \<and> last (subarray d idx1 (idx1 + indexOf (subarray d idx1 (int (length d))) CRLF + 1)) = CHR 0x0D"
proof -
  define r where "r = subarray d idx1 (int (length d))"
  define k where "k = nat (indexOf r CRLF)"
  define s where "s = nat idx1"
  have r1: "r = drop (min s (length d)) d"
    using i by (simp add: r_def s_def subarray_def adjustOffset_def Let_def)
  from indexOf_CRLF_at [of r] f have k: "Suc (Suc k) \<le> length r" "r ! k = CHR 0x0D"
    by (simp_all add: r_def k_def)
  from k(1) r1 have s: "s < length d" by (cases "s < length d") simp_all
  then have r2: "r = drop s d" using r1 by simp
  from k(1) r2 have b: "s + k + 2 \<le> length d" by simp
  have e: "idx1 + indexOf r CRLF + 1 = int (s + k + 1)"
    using i f by (simp add: s_def k_def r_def)
  have a1: "adjustOffset idx1 (length d) = s" using i s by (simp add: adjustOffset_def s_def)
  have a2: "adjustOffset (int (s + k + 1)) (length d) = s + k + 1"
    using b by (simp add: adjustOffset_def)
  have "subarray d idx1 (idx1 + indexOf r CRLF + 1) = take (Suc k) r"
    unfolding e unfolding subarray_def Let_def a1 a2 r2 by simp
  also have "\<dots> = take k r @ [r ! k]"
    using k(1) by (simp add: take_Suc_conv_app_nth)
  finally show ?thesis using k(2) by (simp add: r_def)
qed

lemma splitLines_loop_CR:
  "0 \<le> idx1 \<Longrightarrow> l \<in> set (splitLines_loop d idx1) \<Longrightarrow> l \<noteq> [] \<and> last l = CHR 0x0D"
proof (induction d idx1 rule: splitLines_loop.induct)
  case (1 d idx1)
  let ?idx2 = "indexOf (subarray d idx1 (int (length d))) CRLF"
  show ?case
  proof (cases "0 \<le> ?idx2")
    case False
    with 1(3) show ?thesis by (subst (asm) splitLines_loop.simps) (simp add: Let_def)
  next
    case True
    with 1(3) have "l = subarray d idx1 (idx1 + ?idx2 + 1) \<or> l \<in> set (splitLines_loop d (idx1 + ?idx2 + 2))"
      by (subst (asm) splitLines_loop.simps) (simp add: Let_def)
    then show ?thesis
    proof
      assume "l = subarray d idx1 (idx1 + ?idx2 + 1)"
      with line_keeps_CR [OF 1(2) True] show ?thesis by simp
    next
      assume "l \<in> set (splitLines_loop d (idx1 + ?idx2 + 2))"
      moreover have "0 \<le> idx1 + ?idx2 + 2" using 1(2) True by simp
      ultimately show ?thesis using 1(1) [OF refl True] by blast
    qed
  qed
qed

lemma splitLines_CR: "l \<in> set (splitLines d) \<Longrightarrow> l \<noteq> [] \<and> last l = CHR 0x0D"
  unfolding splitLines_def by (rule splitLines_loop_CR) simp_all

lemma assertion_never_holds: "parseHTTPReq_assertion d \<noteq> Some True"
proof (cases "splitLines d")
  case Nil
  then show ?thesis by (simp add: parseHTTPReq_assertion_def)
next
  case (Cons l ls)
  have "last (l # ls) \<in> set (splitLines d)" unfolding Cons by (rule last_in_set) simp
  from splitLines_CR [OF this] Cons show ?thesis by (simp add: parseHTTPReq_assertion_def)
qed

lemma suffix_keeps_CR:
  assumes "l \<noteq> []" "last l = CHR 0x0D" "0 < start"
  shows "subarray l start (int (length l)) = [] \<or> last (subarray l start (int (length l))) = CHR 0x0D"
proof -
  have "subarray l start (int (length l)) = drop (min (nat start) (length l)) l"
    using assms(3) by (simp add: subarray_def adjustOffset_def Let_def)
  then show ?thesis using assms(2) by (cases "min (nat start) (length l) < length l") simp_all
qed

lemma parseFields_same: "parseFields xs = Inr hs \<Longrightarrow> hs = xs"
  by (induction xs arbitrary: hs) (auto split: if_splits sum.splits)

lemma indexOf_ge: "- 1 \<le> indexOf xs pat"
  by (induction xs) (simp_all add: Let_def)

lemma parsed_request_keeps_CR:
  assumes "parseHTTPReq d = Inr msg"
  shows "(version msg = [] \<or> last (version msg) = CHR 0x0D)
       \<and> (\<forall>h \<in> set (headers msg). h \<noteq> [] \<and> last h = CHR 0x0D)"
proof -
  from assms obtain l0 ls m u v hs where p: "splitLines d = l0 # ls"
    "parseRequestLine l0 = Inr (m, u, v)" "parseFields (butlast (tl (l0 # ls))) = Inr hs"
    "msg = \<lparr>method = m, uri = u, version = v, headers = hs\<rparr>"
    by (auto simp: parseHTTPReq_def Let_def split: list.splits sum.splits prod.splits)
  have l0: "l0 \<noteq> []" "last l0 = CHR 0x0D" using splitLines_CR [of l0 d] p(1) by simp_all
  let ?mi = "indexOf (subarray l0 0 (int (length l0))) '' ''"
  let ?ui = "indexOf (subarray l0 (?mi + 1) (int (length l0))) '' ''"
  from p(2) have v: "v = subarray l0 (?mi + ?ui + 2) (int (length l0))" "0 \<le> ?mi" "0 \<le> ?ui"
    by (auto simp: parseRequestLine_def Let_def split: if_splits)
  from v(2,3) have "0 < ?mi + ?ui + 2" by simp
  from suffix_keeps_CR [OF l0 this] v(1) have ver: "v = [] \<or> last v = CHR 0x0D" by simp
  have "hs = butlast (tl (l0 # ls))" using parseFields_same [OF p(3)] .
  then have "set hs \<subseteq> set (splitLines d)" using p(1)
    by (auto dest: in_set_butlastD)
  then have "\<forall>h \<in> set hs. h \<noteq> [] \<and> last h = CHR 0x0D" using splitLines_CR by blast
  with ver p(4) show ?thesis by simp
qed

lemma fieldGet_value_keeps_CR:
  "\<forall>h \<in> set hs. h \<noteq> [] \<and> last h = CHR 0x0D \<Longrightarrow> fieldGet hs key = Some v \<Longrightarrow>
   v = [] \<or> last v = CHR 0x0D"
proof (induction hs)
  case Nil
  then show ?case by simp
next
  case (Cons h hs)
  let ?idx = "indexOf (subarray h 0 (int (length h))) '':''"
  show ?case
  proof (cases "subarray h 0 ?idx = key")
    case True
    with Cons.prems(2) have v: "v = subarray h (?idx + 2) (int (length h))" by (simp add: Let_def)
    have "0 < ?idx + 2" using indexOf_ge [of "subarray h 0 (int (length h))" "'':''"] by simp
    from suffix_keeps_CR [OF _ _ this, of h] Cons.prems(1) v show ?thesis by simp
  next
    case False
    with Cons.prems(2) have "fieldGet hs key = Some v" by (simp add: Let_def)
    with Cons.IH Cons.prems(1) show ?thesis by simp
  qed
qed

lemma parsed_version_never_1_0: "parseHTTPReq d = Inr msg \<Longrightarrow> version msg \<noteq> ''1.0''"
  using parsed_request_keeps_CR [of d msg] by auto

lemma parsed_request_never_chunked:
  assumes "parseHTTPReq d = Inr msg"
  shows "fieldGet (headers msg) ''Transfer-Encoding'' \<noteq> Some ''chunked''
       \<and> readerFromReq msg \<noteq> Inr (readerFromGenerator readChunks)"
proof -
  from parsed_request_keeps_CR [OF assms]
  have h: "\<forall>h \<in> set (headers msg). h \<noteq> [] \<and> last h = CHR 0x0D" by simp
  have n: "fieldGet (headers msg) ''Transfer-Encoding'' \<noteq> Some ''chunked''"
  proof
    assume "fieldGet (headers msg) ''Transfer-Encoding'' = Some ''chunked''"
    from fieldGet_value_keeps_CR [OF h this] show False by simp
  qed
  then have "readerFromReq msg \<noteq> Inr (readerFromGenerator readChunks)"
    by (auto simp: readerFromReq_def Let_def readerFromGenerator_def readerFromConnLength_def
          readerFromConnEOF_def split: option.splits if_splits)
  with n show ?thesis by simp
qed

text \<open>The decision of \<open>readerFromReq\<close> itself: when the lookup does return \<open>chunked\<close>
  for a method that allows a body with no \<open>Content-Length\<close>, the reader is the chunked
  one.\<close>

lemma readerFromReq_chunked_policy:
  assumes "method req \<noteq> ''GET''" "method req \<noteq> ''HEAD''"
    and "fieldGet (headers req) ''Content-Length'' = None"
    and "fieldGet (headers req) ''Transfer-Encoding'' = Some ''chunked''"
  shows "readerFromReq req = Inr (readerFromGenerator readChunks)"
  using assms by (simp add: readerFromReq_def)

text \<open>
  Claim C10. \<open>splitLines\<close> cuts each line at \<open>idx1 + idx2 + 1\<close>, one byte past the
  text of the line, so every line keeps its carriage return. For the header block
  \<open>GET / HTTP/1.1\r\nHost: x\r\n\r\n\<close>, which the framer hands over as it is, the last
  line is the one byte \<open>\r\<close> and not the empty line: the condition of the assertion in
  \<open>parseHTTPReq\<close> is false, the version is \<open>HTTP/1.1\r\<close> and the header field is
  \<open>Host: x\r\<close>. Lemma \<open>assertion_never_holds\<close> says the same of every block.
\<close>

theorem splitLines_keeps_CR:
  "splitLines (''GET / HTTP/1.1'' @ CRLF @ ''Host: x'' @ CRLF @ CRLF)
     = [''GET / HTTP/1.1'' @ [CHR 0x0D], ''Host: x'' @ [CHR 0x0D], [CHR 0x0D]]
   \<and> parseHTTPReq_assertion (''GET / HTTP/1.1'' @ CRLF @ ''Host: x'' @ CRLF @ CRLF) = Some False
   \<and> map_option fst (firstRequest (connOf [''GET / HTTP/1.1'' @ CRLF @ ''Host: x'' @ CRLF @ CRLF]))
     = Some \<lparr>method = ''GET'', uri = ''/'', version = ''HTTP/1.1'' @ [CHR 0x0D],
             headers = [''Host: x'' @ [CHR 0x0D]]\<rparr>"
  by code_simp

text \<open>
  Claim C2. A request that allows a body, has no \<open>Content-Length\<close> and carries the field
  \<open>Transfer-Encoding: chunked\<close> is parsed with the field value \<open>chunked\r\<close>; the
  comparison with \<open>chunked\<close> fails and \<open>readerFromReq\<close> returns the read-until-close
  reader. By lemma \<open>parsed_request_never_chunked\<close> no parsed request gets the chunked
  reader.
\<close>

theorem chunked_request_gets_eof_reader:
  "map_option (\<lambda>(msg, w). (msg, readerFromReq msg))
     (firstRequest (connOf [''POST /echo HTTP/1.1'' @ CRLF @ ''Transfer-Encoding: chunked'' @ CRLF @ CRLF]))
   = Some (\<lparr>method = ''POST'', uri = ''/echo'', version = ''HTTP/1.1'' @ [CHR 0x0D],
             headers = [''Transfer-Encoding: chunked'' @ [CHR 0x0D]]\<rparr>,
           Inr readerFromConnEOF)"
  by code_simp

text \<open>
  Claim C7, as stated, fails: a \<open>GET\<close> request whose \<open>Content-Length\<close> is not a number
  declares neither a positive length nor chunked coding, and its reader is not built with
  length 0: construction fails with status 400, \<open>bad Content-Length.\<close>
\<close>

theorem bad_content_length_counterexample:
  "map_option (\<lambda>(msg, w). (method msg, fieldGet (headers msg) ''Content-Length'',
                             parseDec (''abc'' @ [CHR 0x0D]),
                             fieldGet (headers msg) ''Transfer-Encoding'', readerFromReq msg))
     (firstRequest (connOf [''GET / HTTP/1.1'' @ CRLF @ ''Content-Length: abc'' @ CRLF @ CRLF]))
   = Some (''GET'', Some (''abc'' @ [CHR 0x0D]), None, None, Inl (HTTPError 400 ''bad Content-Length.''))"
  by code_simp

text \<open>
  Claim C7, amended. For a request with method \<open>GET\<close> or \<open>HEAD\<close>: a \<open>Content-Length\<close>
  field whose value is not a number fails with status 400, \<open>bad Content-Length.\<close>;
  otherwise construction fails with status 400, \<open>HTTP body not allowed.\<close>, when the parsed
  \<open>Content-Length\<close> is positive or the value that \<open>fieldGet\<close> returns for
  \<open>Transfer-Encoding\<close> is \<open>chunked\<close>, and in every other case the reader is the
  fixed-length reader of length 0, whose \<open>read\<close> returns the empty chunk.
\<close>

theorem readerFromReq_get_head:
  assumes "method req = ''GET'' \<or> method req = ''HEAD''"
  shows "(\<forall>v. fieldGet (headers req) ''Content-Length'' = Some v \<and> parseDec v = None
            \<longrightarrow> readerFromReq req = Inl (HTTPError 400 ''bad Content-Length.''))
       \<and> (\<forall>bodyLen.
             (fieldGet (headers req) ''Content-Length'' = None \<and> bodyLen = - 1)
             \<or> (\<exists>v. fieldGet (headers req) ''Content-Length'' = Some v \<and> parseDec v = Some bodyLen)
            \<longrightarrow> readerFromReq req =
                 (if 0 < bodyLen \<or> fieldGet (headers req) ''Transfer-Encoding'' = Some ''chunked''
                  then Inl (HTTPError 400 ''HTTP body not allowed.'')
                  else Inr (readerFromConnLength 0)))
       \<and> rlength (readerFromConnLength 0) = 0
       \<and> (\<forall>n w. read n (readerFromConnLength 0) w = (Ok ([], readerFromConnLength 0), w))"
proof -
  have bad: "readerFromReq req = Inl (HTTPError 400 ''bad Content-Length.'')"
    if "fieldGet (headers req) ''Content-Length'' = Some v" "parseDec v = None" for v
    using that by (simp add: readerFromReq_def)
  have ok: "readerFromReq req =
                 (if 0 < bodyLen \<or> fieldGet (headers req) ''Transfer-Encoding'' = Some ''chunked''
                  then Inl (HTTPError 400 ''HTTP body not allowed.'')
                  else Inr (readerFromConnLength 0))"
    if "(fieldGet (headers req) ''Content-Length'' = None \<and> bodyLen = - 1)
        \<or> (\<exists>v. fieldGet (headers req) ''Content-Length'' = Some v \<and> parseDec v = Some bodyLen)"
    for bodyLen
    using that assms by (auto simp: readerFromReq_def Let_def split: option.splits)
  have rd: "read n (readerFromConnLength 0) w = (Ok ([], readerFromConnLength 0), w)" for n w
    by (simp add: read_def readerFromConnLength_def readConnLength_def andThen_def)
  have "rlength (readerFromConnLength 0) = 0" by (simp add: readerFromConnLength_def)
  with bad ok rd show ?thesis by blast
qed

theorem readerFromReq_get_head_witness:
  "readerFromReq \<lparr>method = ''GET'', uri = ''/'', version = ''HTTP/1.1'', headers = [''Content-Length: 5'']\<rparr>
     = Inl (HTTPError 400 ''HTTP body not allowed.'')
   \<and> readerFromReq \<lparr>method = ''HEAD'', uri = ''/'', version = ''HTTP/1.1'', headers = [''Transfer-Encoding: chunked'']\<rparr>
     = Inl (HTTPError 400 ''HTTP body not allowed.'')
   \<and> readerFromReq \<lparr>method = ''GET'', uri = ''/'', version = ''HTTP/1.1'', headers = [''Host: a'']\<rparr>
     = Inr (readerFromConnLength 0)
   \<and> readerFromReq \<lparr>method = ''GET'', uri = ''/'', version = ''HTTP/1.1'', headers = [''Content-Length: x'']\<rparr>
     = Inl (HTTPError 400 ''bad Content-Length.'')"
proof -
  let ?r1 = "\<lparr>method = ''GET'', uri = ''/'', version = ''HTTP/1.1'', headers = [''Content-Length: 5'']\<rparr>"
  let ?r2 = "\<lparr>method = ''HEAD'', uri = ''/'', version = ''HTTP/1.1'', headers = [''Transfer-Encoding: chunked'']\<rparr>"
  let ?r3 = "\<lparr>method = ''GET'', uri = ''/'', version = ''HTTP/1.1'', headers = [''Host: a'']\<rparr>"
  let ?r4 = "\<lparr>method = ''GET'', uri = ''/'', version = ''HTTP/1.1'', headers = [''Content-Length: x'']\<rparr>"
  have m: "method ?r1 = ''GET'' \<or> method ?r1 = ''HEAD''" "method ?r2 = ''GET'' \<or> method ?r2 = ''HEAD''"
    "method ?r3 = ''GET'' \<or> method ?r3 = ''HEAD''" "method ?r4 = ''GET'' \<or> method ?r4 = ''HEAD''"
    by simp_all
  have f1: "fieldGet (headers ?r1) ''Content-Length'' = Some ''5''" "parseDec ''5'' = Some 5"
    by code_simp+
  have f2: "fieldGet (headers ?r2) ''Content-Length'' = None"
    "fieldGet (headers ?r2) ''Transfer-Encoding'' = Some ''chunked''"
    by code_simp+
  have f3: "fieldGet (headers ?r3) ''Content-Length'' = None"
    "fieldGet (headers ?r3) ''Transfer-Encoding'' = None"
    by code_simp+
  have f4: "fieldGet (headers ?r4) ''Content-Length'' = Some ''x''" "parseDec ''x'' = None"
    by code_simp+
  from readerFromReq_get_head [OF m(1)] f1
  have c1: "readerFromReq ?r1 = Inl (HTTPError 400 ''HTTP body not allowed.'')" by auto
  from readerFromReq_get_head [OF m(2)] f2
  have c2: "readerFromReq ?r2 = Inl (HTTPError 400 ''HTTP body not allowed.'')" by auto
  from readerFromReq_get_head [OF m(3)] f3
  have c3: "readerFromReq ?r3 = Inr (readerFromConnLength 0)" by auto
  from readerFromReq_get_head [OF m(4)] f4
  have c4: "readerFromReq ?r4 = Inl (HTTPError 400 ''bad Content-Length.'')" by auto
  from c1 c2 c3 c4 show ?thesis by blast
qed

lemma parseFields_error: "parseFields hs = Inl e \<Longrightarrow> e = HTTPError 400 ''bad field''"
  by (induction hs arbitrary: e) (auto split: if_splits sum.splits)

lemma parseRequestLine_error: "parseRequestLine d = Inl e \<Longrightarrow> \<exists>m. e = HTTPError 400 m"
  by (auto simp: parseRequestLine_def Let_def split: if_splits)

lemma parseHTTPReq_error:
  "parseHTTPReq d = Inl e \<Longrightarrow> e = TypeError \<or> (\<exists>m. e = HTTPError 400 m)"
  by (auto simp: parseHTTPReq_def Let_def split: list.splits sum.splits prod.splits
           dest: parseFields_error parseRequestLine_error)

lemma indexOf_replicate_a: "indexOf (replicate n (CHR ''a'')) (CRLF @ CRLF) = - 1"
  by (induction n) simp_all

text \<open>
  Claim C8. The framer \<open>cutMessage\<close> raises a status-413 error exactly when the buffered
  bytes hold no \<open>\r\n\r\n\<close> and the buffered length is at least 8192; the error is
  \<open>header is too large\<close>, and the server loop then throws it with the buffer and the
  connection untouched, so nothing was read. With no delimiter below 8192 bytes it
  returns \<open>null\<close> and leaves the buffer as it was.
\<close>

theorem cutMessage_header_too_large:
  "((\<exists>m. cutMessage buf = Inl (HTTPError 413 m))
      = (indexOf (subarray (data buf) 0 (dlength buf)) (CRLF @ CRLF) < 0 \<and> 8192 \<le> dlength buf))
   \<and> (indexOf (subarray (data buf) 0 (dlength buf)) (CRLF @ CRLF) < 0 \<and> 8192 \<le> dlength buf
        \<longrightarrow> cutMessage buf = Inl (HTTPError 413 ''header is too large'')
          \<and> (\<forall>n c. serveClient_loop (Suc n) \<lparr>wbuf = buf, wconn = c\<rparr>
                 = (Throw (HTTPError 413 ''header is too large''), \<lparr>wbuf = buf, wconn = c\<rparr>)))
   \<and> (indexOf (subarray (data buf) 0 (dlength buf)) (CRLF @ CRLF) < 0 \<and> dlength buf < 8192
        \<longrightarrow> cutMessage buf = Inr (None, buf))"
proof -
  let ?idx = "indexOf (subarray (data buf) 0 (dlength buf)) (CRLF @ CRLF)"
  have big: "cutMessage buf = Inl (HTTPError 413 ''header is too large'')"
    if "?idx < 0" "8192 \<le> dlength buf"
    using that by (simp add: cutMessage_def kMaxHeaderLen_def)
  have small: "cutMessage buf = Inr (None, buf)" if "?idx < 0" "dlength buf < 8192"
    using that by (simp add: cutMessage_def kMaxHeaderLen_def)
  have found: "cutMessage buf \<noteq> Inl (HTTPError 413 m)" if "\<not> ?idx < 0" for m
  proof
    assume a: "cutMessage buf = Inl (HTTPError 413 m)"
    from that a have "parseHTTPReq (subarray (data buf) 0 (?idx + 4)) = Inl (HTTPError 413 m)"
      by (simp add: cutMessage_def Let_def split: sum.splits)
    from parseHTTPReq_error [OF this] show False by simp
  qed
  have iff: "(\<exists>m. cutMessage buf = Inl (HTTPError 413 m)) = (?idx < 0 \<and> 8192 \<le> dlength buf)"
  proof
    assume "\<exists>m. cutMessage buf = Inl (HTTPError 413 m)"
    then obtain m where m: "cutMessage buf = Inl (HTTPError 413 m)" by blast
    with found have i: "?idx < 0" by blast
    have "8192 \<le> dlength buf"
    proof (rule ccontr)
      assume "\<not> 8192 \<le> dlength buf"
      with small i m show False by simp
    qed
    with i show "?idx < 0 \<and> 8192 \<le> dlength buf" by simp
  next
    assume "?idx < 0 \<and> 8192 \<le> dlength buf"
    with big show "\<exists>m. cutMessage buf = Inl (HTTPError 413 m)" by blast
  qed
  have loop: "serveClient_loop (Suc n) \<lparr>wbuf = buf, wconn = c\<rparr>
                 = (Throw (HTTPError 413 ''header is too large''), \<lparr>wbuf = buf, wconn = c\<rparr>)"
    if "?idx < 0" "8192 \<le> dlength buf" for n c
    using big [OF that] by simp
  from iff big small loop show ?thesis by blast
qed

theorem cutMessage_header_too_large_witness:
  "cutMessage \<lparr>data = replicate 8192 (CHR ''a''), dlength = 8192\<rparr>
      = Inl (HTTPError 413 ''header is too large'')
   \<and> serveClient_loop (Suc 0) \<lparr>wbuf = \<lparr>data = replicate 8192 (CHR ''a''), dlength = 8192\<rparr>,
                                wconn = connOf [''more'']\<rparr>
      = (Throw (HTTPError 413 ''header is too large''),
         \<lparr>wbuf = \<lparr>data = replicate 8192 (CHR ''a''), dlength = 8192\<rparr>, wconn = connOf [''more'']\<rparr>)
   \<and> cutMessage \<lparr>data = replicate 8191 (CHR ''a''), dlength = 8191\<rparr>
      = Inr (None, \<lparr>data = replicate 8191 (CHR ''a''), dlength = 8191\<rparr>)"
proof -
  have s: "subarray (replicate n (CHR ''a'')) 0 (int n) = replicate n (CHR ''a'')" for n
    by (simp add: subarray_def adjustOffset_def)
  have h1: "indexOf (subarray (data \<lparr>data = replicate 8192 (CHR ''a''), dlength = 8192\<rparr>) 0
              (dlength \<lparr>data = replicate 8192 (CHR ''a''), dlength = 8192\<rparr>)) (CRLF @ CRLF) < 0
            \<and> 8192 \<le> dlength \<lparr>data = replicate 8192 (CHR ''a''), dlength = 8192\<rparr>"
    using s [of 8192] indexOf_replicate_a [of 8192] by simp
  have h2: "indexOf (subarray (data \<lparr>data = replicate 8191 (CHR ''a''), dlength = 8191\<rparr>) 0
              (dlength \<lparr>data = replicate 8191 (CHR ''a''), dlength = 8191\<rparr>)) (CRLF @ CRLF) < 0
            \<and> dlength \<lparr>data = replicate 8191 (CHR ''a''), dlength = 8191\<rparr> < 8192"
    using s [of 8191] indexOf_replicate_a [of 8191] by simp
  from cutMessage_header_too_large [of "\<lparr>data = replicate 8192 (CHR ''a''), dlength = 8192\<rparr>"] h1
       cutMessage_header_too_large [of "\<lparr>data = replicate 8191 (CHR ''a''), dlength = 8191\<rparr>"] h2
  show ?thesis by blast
qed

section \<open>Properties of the body readers\<close>

lemma subarray_prefix:
  assumes "wf_buf b" "0 \<le> k" "k \<le> dlength b"
  shows "subarray (data b) 0 k = take (nat k) (valid b)"
proof -
  from assms have "nat k \<le> nat (dlength b)" "nat k \<le> length (data b)"
    by (auto simp: wf_buf_def)
  then show ?thesis using assms(2)
    by (simp add: subarray_def adjustOffset_def valid_def Let_def min_def)
qed

lemma readConnLength_buffered:
  assumes wf: "wf_buf (wbuf w)" and rem: "0 < remain" and len: "0 < dlength (wbuf w)"
  shows "readConnLength remain w =
           (Ok (take (nat (min remain (dlength (wbuf w)))) (valid (wbuf w)),
                remain - min remain (dlength (wbuf w))),
            bufPopW (min remain (dlength (wbuf w))) w)"
proof -
  let ?c = "min (dlength (wbuf w)) remain"
  have c: "0 \<le> ?c" "?c \<le> dlength (wbuf w)" using rem len by simp_all
  have "subarray (data (wbuf w)) 0 ?c = take (nat ?c) (valid (wbuf w))"
    using subarray_prefix [OF wf c] .
  then show ?thesis using rem len
    by (simp add: readConnLength_def andThen_def Let_def min.commute)
qed

lemma bufPopW_props:
  assumes "wf_buf (wbuf w)" "0 \<le> k" "k \<le> dlength (wbuf w)"
  shows "valid (wbuf (bufPopW k w)) = drop (nat k) (valid (wbuf w))"
    and "wf_buf (wbuf (bufPopW k w))" and "wconn (bufPopW k w) = wconn w"
  using bufPop_wf [OF assms] by (simp_all add: bufPopW_def)

lemma valid_empty: "wf_buf b \<Longrightarrow> dlength b = 0 \<Longrightarrow> valid b = []"
  by (simp add: valid_def)

lemma readConnLength_fetch:
  assumes wf: "wf_buf (wbuf w)" and rem: "0 < remain" and len: "dlength (wbuf w) = 0"
    and rd: "soRead (wconn w) = (Ok d, c)"
  shows "\<exists>b. bufPush (wbuf w) d = Inr b \<and> wf_buf b \<and> valid b = d \<and> dlength b = int (length d)
           \<and> readConnLength remain w =
               (if d = [] then (Throw (Error ''Unexpected EOF from HTTP body''), w\<lparr>wconn := c, wbuf := b\<rparr>)
                else readConnLength remain (w\<lparr>wconn := c, wbuf := b\<rparr>))"
proof -
  from bufPush_wf [OF wf, of d] obtain b where b: "bufPush (wbuf w) d = Inr b" "wf_buf b"
    "valid b = valid (wbuf w) @ d" "dlength b = dlength (wbuf w) + int (length d)" by blast
  have v: "valid b = d" using b(3) valid_empty [OF wf len] by simp
  have l: "dlength b = int (length d)" using b(4) len by simp
  have "readConnLength remain w =
               (if d = [] then (Throw (Error ''Unexpected EOF from HTTP body''), w\<lparr>wconn := c, wbuf := b\<rparr>)
                else readConnLength remain (w\<lparr>wconn := c, wbuf := b\<rparr>))"
  proof (cases "d = []")
    case True
    then show ?thesis using rem len rd b(1)
      by (simp add: readConnLength_def andThen_def soReadW_def bufPushW_def)
  next
    case False
    then have "dlength b \<noteq> 0" using l by simp
    then show ?thesis using False rem len rd b(1)
      by (simp add: readConnLength_def andThen_def soReadW_def bufPushW_def)
  qed
  with b(1,2) v l show ?thesis by blast
qed

lemma read_ConnLength:
  "read n (ConnLength len remain) w =
     (case readConnLength remain w of
        (Ok (d, remain'), w') \<Rightarrow> (Ok (d, ConnLength len remain'), w')
      | (Throw e, w') \<Rightarrow> (Throw e, w')
      | (Diverge, w') \<Rightarrow> (Diverge, w'))"
  by (simp add: read_def andThen_def split: prod.splits result.splits)

text \<open>
  Claim C6. A fixed-length reader with \<open>remain > 0\<close> over a well-formed buffer: when bytes
  are buffered, \<open>read\<close> returns the first \<open>min(remain, buffered)\<close> of them, evicts
  them, lowers \<open>remain\<close> by that count and does not touch the connection; when the buffer
  is empty it takes one delivery from the connection, fails with
  \<open>Unexpected EOF from HTTP body\<close> if the delivery is empty, and otherwise serves
  \<open>min(remain, delivered)\<close> bytes of it. A chunk returned with \<open>remain > 0\<close> is never
  empty, and with \<open>remain = 0\<close> the chunk is empty. For the request
  \<open>POST /echo HTTP/1.1\r\nContent-Length: 5\r\n\r\nhello\<close> in one delivery the reader has
  length 5, its first \<open>read\<close> returns \<open>hello\<close> and its second the empty chunk.
\<close>

theorem fixed_length_read:
  "(wf_buf (wbuf w) \<and> 0 < remain \<longrightarrow>
      (0 < dlength (wbuf w) \<longrightarrow>
         (\<exists>w'. read n (ConnLength len remain) w
                  = (Ok (take (nat (min remain (dlength (wbuf w)))) (valid (wbuf w)),
                         ConnLength len (remain - min remain (dlength (wbuf w)))), w')
              \<and> valid (wbuf w') = drop (nat (min remain (dlength (wbuf w)))) (valid (wbuf w))
              \<and> wf_buf (wbuf w') \<and> wconn w' = wconn w))
    \<and> (dlength (wbuf w) = 0 \<longrightarrow>
         (\<forall>d c. soRead (wconn w) = (Ok d, c) \<longrightarrow>
            (if d = []
             then fst (read n (ConnLength len remain) w) = Throw (Error ''Unexpected EOF from HTTP body'')
             else (\<exists>w'. read n (ConnLength len remain) w
                      = (Ok (take (nat (min remain (int (length d)))) d,
                             ConnLength len (remain - min remain (int (length d)))), w')
                   \<and> valid (wbuf w') = drop (nat (min remain (int (length d)))) d
                   \<and> wf_buf (wbuf w') \<and> wconn w' = c))))
    \<and> (\<forall>d r' w'. read n (ConnLength len remain) w = (Ok (d, r'), w') \<longrightarrow> d \<noteq> []))
   \<and> read n (ConnLength len 0) w = (Ok ([], ConnLength len 0), w)
   \<and> map_option (\<lambda>(msg, w1).
          (readerFromReq msg, valid (wbuf w1),
           fst (read 0 (readerFromConnLength 5) w1),
           fst (read 0 (ConnLength 5 0) (snd (read 0 (readerFromConnLength 5) w1)))))
        (firstRequest (connOf [''POST /echo HTTP/1.1'' @ CRLF @ ''Content-Length: 5'' @ CRLF @ CRLF @ ''hello'']))
      = Some (Inr (readerFromConnLength 5), ''hello'', Ok (''hello'', ConnLength 5 0), Ok ([], ConnLength 5 0))"
proof -
  have A: "\<exists>w'. read n (ConnLength len remain) w
                  = (Ok (take (nat (min remain (dlength (wbuf w)))) (valid (wbuf w)),
                         ConnLength len (remain - min remain (dlength (wbuf w)))), w')
              \<and> valid (wbuf w') = drop (nat (min remain (dlength (wbuf w)))) (valid (wbuf w))
              \<and> wf_buf (wbuf w') \<and> wconn w' = wconn w"
    if wf: "wf_buf (wbuf w)" and rem: "0 < remain" and len: "0 < dlength (wbuf w)" for w
  proof -
    let ?k = "min remain (dlength (wbuf w))"
    have k: "0 \<le> ?k" "?k \<le> dlength (wbuf w)" using rem len by simp_all
    have "read n (ConnLength len remain) w
            = (Ok (take (nat ?k) (valid (wbuf w)), ConnLength len (remain - ?k)), bufPopW ?k w)"
      by (simp add: read_ConnLength readConnLength_buffered [OF wf rem len])
    with bufPopW_props [OF wf k] show ?thesis by blast
  qed
  have B: "if d = []
             then fst (read n (ConnLength len remain) w) = Throw (Error ''Unexpected EOF from HTTP body'')
             else (\<exists>w'. read n (ConnLength len remain) w
                      = (Ok (take (nat (min remain (int (length d)))) d,
                             ConnLength len (remain - min remain (int (length d)))), w')
                   \<and> valid (wbuf w') = drop (nat (min remain (int (length d)))) d
                   \<and> wf_buf (wbuf w') \<and> wconn w' = c)"
    if wf: "wf_buf (wbuf w)" and rem: "0 < remain" and len: "dlength (wbuf w) = 0"
      and rd: "soRead (wconn w) = (Ok d, c)" for d c
  proof -
    from readConnLength_fetch [OF wf rem len rd] obtain b where b: "wf_buf b" "valid b = d"
      "dlength b = int (length d)"
      "readConnLength remain w =
               (if d = [] then (Throw (Error ''Unexpected EOF from HTTP body''), w\<lparr>wconn := c, wbuf := b\<rparr>)
                else readConnLength remain (w\<lparr>wconn := c, wbuf := b\<rparr>))" by blast
    show ?thesis
    proof (cases "d = []")
      case True
      then show ?thesis using b(4) by (simp add: read_ConnLength)
    next
      case False
      let ?w1 = "w\<lparr>wconn := c, wbuf := b\<rparr>"
      have "read n (ConnLength len remain) w = read n (ConnLength len remain) ?w1"
        using False b(4) by (simp add: read_ConnLength)
      moreover have "wf_buf (wbuf ?w1)" "0 < dlength (wbuf ?w1)" using b False by simp_all
      from A [OF this(1) rem this(2)] obtain w' where
        "read n (ConnLength len remain) ?w1
                  = (Ok (take (nat (min remain (dlength (wbuf ?w1)))) (valid (wbuf ?w1)),
                         ConnLength len (remain - min remain (dlength (wbuf ?w1)))), w')"
        "valid (wbuf w') = drop (nat (min remain (dlength (wbuf ?w1)))) (valid (wbuf ?w1))"
        "wf_buf (wbuf w')" "wconn w' = wconn ?w1" by blast
      ultimately show ?thesis using False b(2,3) by simp
    qed
  qed
  have D: "d \<noteq> []" if wf: "wf_buf (wbuf w)" and rem: "0 < remain"
    and r: "read n (ConnLength len remain) w = (Ok (d, r'), w')" for d r' w'
  proof (cases "dlength (wbuf w) = 0")
    case False
    with wf have len: "0 < dlength (wbuf w)" by (simp add: wf_buf_def)
    from A [OF wf rem len] r have "d = take (nat (min remain (dlength (wbuf w)))) (valid (wbuf w))"
      by auto
    moreover have "length (valid (wbuf w)) = nat (dlength (wbuf w))" using length_valid [OF wf] .
    ultimately show ?thesis using rem len by auto
  next
    case True
    show ?thesis
    proof (cases "soRead (wconn w)")
      case (Pair res c)
      show ?thesis
      proof (cases res)
        case (Ok d0)
        from B [OF wf rem True Pair [unfolded Ok]] r
        have "d0 \<noteq> []" "d = take (nat (min remain (int (length d0)))) d0"
          by (auto split: if_splits)
        then show ?thesis using rem by (cases d0) (auto simp: min_def)
      next
        case (Throw e)
        with Pair True rem r show ?thesis
          by (simp add: read_ConnLength readConnLength_def andThen_def soReadW_def)
      next
        case Diverge
        with Pair True rem r show ?thesis
          by (simp add: read_ConnLength readConnLength_def andThen_def soReadW_def)
      qed
    qed
  qed
  have E: "read n (ConnLength len 0) w = (Ok ([], ConnLength len 0), w)"
    by (simp add: read_ConnLength readConnLength_def)
  have F: "map_option (\<lambda>(msg, w1).
          (readerFromReq msg, valid (wbuf w1),
           fst (read 0 (readerFromConnLength 5) w1),
           fst (read 0 (ConnLength 5 0) (snd (read 0 (readerFromConnLength 5) w1)))))
        (firstRequest (connOf [''POST /echo HTTP/1.1'' @ CRLF @ ''Content-Length: 5'' @ CRLF @ CRLF @ ''hello'']))
      = Some (Inr (readerFromConnLength 5), ''hello'', Ok (''hello'', ConnLength 5 0), Ok ([], ConnLength 5 0))"
    by code_simp
  from A B D E F show ?thesis by blast
qed

theorem fixed_length_read_witness:
  "wf_buf (wbuf \<lparr>wbuf = \<lparr>data = ''hello world'', dlength = 11\<rparr>, wconn = connOf []\<rparr>)
   \<and> (0::int) < 5
   \<and> 0 < dlength (wbuf \<lparr>wbuf = \<lparr>data = ''hello world'', dlength = 11\<rparr>, wconn = connOf []\<rparr>)
   \<and> (\<exists>w'. read 0 (ConnLength 5 5) \<lparr>wbuf = \<lparr>data = ''hello world'', dlength = 11\<rparr>, wconn = connOf []\<rparr>
               = (Ok (''hello'', ConnLength 5 0), w')
           \<and> valid (wbuf w') = '' world'' \<and> wconn w' = connOf [])
   \<and> dlength (wbuf \<lparr>wbuf = \<lparr>data = alloc 0, dlength = 0\<rparr>, wconn = connOf [''hel'']\<rparr>) = 0
   \<and> soRead (wconn \<lparr>wbuf = \<lparr>data = alloc 0, dlength = 0\<rparr>, wconn = connOf [''hel'']\<rparr>)
        = (Ok ''hel'', connOf [])
   \<and> (\<exists>w'. read 0 (ConnLength 5 5) \<lparr>wbuf = \<lparr>data = alloc 0, dlength = 0\<rparr>, wconn = connOf [''hel'']\<rparr>
               = (Ok (''hel'', ConnLength 5 2), w')
           \<and> valid (wbuf w') = [] \<and> wconn w' = connOf [])
   \<and> fst (read 0 (ConnLength 5 2) \<lparr>wbuf = \<lparr>data = alloc 0, dlength = 0\<rparr>, wconn = connOf []\<rparr>)
        = Throw (Error ''Unexpected EOF from HTTP body'')"
proof -
  let ?w0 = "\<lparr>wbuf = \<lparr>data = ''hello world'', dlength = 11\<rparr>, wconn = connOf []\<rparr>"
  let ?w1 = "\<lparr>wbuf = \<lparr>data = alloc 0, dlength = 0\<rparr>, wconn = connOf [''hel'']\<rparr>"
  let ?w2 = "\<lparr>wbuf = \<lparr>data = alloc 0, dlength = 0\<rparr>, wconn = connOf []\<rparr>"
  have h0: "wf_buf (wbuf ?w0)" "(0::int) < 5" "0 < dlength (wbuf ?w0)"
    by (simp_all add: wf_buf_def)
  have v0: "take (nat (min 5 (dlength (wbuf ?w0)))) (valid (wbuf ?w0)) = ''hello''"
    "drop (nat (min 5 (dlength (wbuf ?w0)))) (valid (wbuf ?w0)) = '' world''"
    "5 - min 5 (dlength (wbuf ?w0)) = 0"
    by (simp_all add: valid_def)
  from fixed_length_read [of ?w0 5 0 5] h0
  have "\<exists>w'. read 0 (ConnLength 5 5) ?w0
                  = (Ok (take (nat (min 5 (dlength (wbuf ?w0)))) (valid (wbuf ?w0)),
                         ConnLength 5 (5 - min 5 (dlength (wbuf ?w0)))), w')
              \<and> valid (wbuf w') = drop (nat (min 5 (dlength (wbuf ?w0)))) (valid (wbuf ?w0))
              \<and> wf_buf (wbuf w') \<and> wconn w' = wconn ?w0" by blast
  then have c0: "\<exists>w'. read 0 (ConnLength 5 5) ?w0 = (Ok (''hello'', ConnLength 5 0), w')
           \<and> valid (wbuf w') = '' world'' \<and> wconn w' = connOf []"
    unfolding v0 by auto
  have h1: "wf_buf (wbuf ?w1)" "dlength (wbuf ?w1) = 0" "soRead (wconn ?w1) = (Ok ''hel'', connOf [])"
    by (simp_all add: wf_buf_def alloc_def soRead_def connOf_def)
  have v1: "take (nat (min 5 (int (length ''hel'')))) ''hel'' = ''hel''"
    "drop (nat (min 5 (int (length ''hel'')))) ''hel'' = []"
    "5 - min 5 (int (length ''hel'')) = 2"
    by simp_all
  from fixed_length_read [of ?w1 5 0 5] h1 h0(2)
  have "if ''hel'' = []
             then fst (read 0 (ConnLength 5 5) ?w1) = Throw (Error ''Unexpected EOF from HTTP body'')
             else (\<exists>w'. read 0 (ConnLength 5 5) ?w1
                      = (Ok (take (nat (min 5 (int (length ''hel'')))) ''hel'',
                             ConnLength 5 (5 - min 5 (int (length ''hel'')))), w')
                   \<and> valid (wbuf w') = drop (nat (min 5 (int (length ''hel'')))) ''hel''
                   \<and> wf_buf (wbuf w') \<and> wconn w' = connOf [])" by blast
  then have c1: "\<exists>w'. read 0 (ConnLength 5 5) ?w1 = (Ok (''hel'', ConnLength 5 2), w')
           \<and> valid (wbuf w') = [] \<and> wconn w' = connOf []"
    unfolding v1 by auto
  have h2: "wf_buf (wbuf ?w2)" "(0::int) < 2" "dlength (wbuf ?w2) = 0"
    "soRead (wconn ?w2) = (Ok [], (connOf [])\<lparr>ended := True\<rparr>)"
    by (simp_all add: wf_buf_def alloc_def soRead_def connOf_def)
  from fixed_length_read [of ?w2 2 0 5] h2
  have "if ([]::Buffer) = []
             then fst (read 0 (ConnLength 5 2) ?w2) = Throw (Error ''Unexpected EOF from HTTP body'')
             else (\<exists>w'. read 0 (ConnLength 5 2) ?w2
                      = (Ok (take (nat (min 2 (int (length ([]::Buffer))))) [],
                             ConnLength 5 (2 - min 2 (int (length ([]::Buffer))))), w')
                   \<and> valid (wbuf w') = drop (nat (min 2 (int (length ([]::Buffer))))) []
                   \<and> wf_buf (wbuf w') \<and> wconn w' = (connOf [])\<lparr>ended := True\<rparr>)" by blast
  then have c2: "fst (read 0 (ConnLength 5 2) ?w2) = Throw (Error ''Unexpected EOF from HTTP body'')"
    by simp
  from h0 c0 h1(2,3) c1 c2 show ?thesis by blast
qed

text \<open>Once the stream has ended, the read-until-close reader returns the whole store on
  every \<open>read\<close> and changes nothing, so a loop that waits for its empty chunk does not
  end.\<close>

lemma bufPush_empty: "wf_buf b \<Longrightarrow> bufPush b [] = Inr b"
  by (simp add: bufPush_def wf_buf_def copy_def Let_def)

lemma eof_reader_repeats:
  assumes "wf_buf (wbuf w)" "ended (wconn w)" "\<not> err (wconn w)"
  shows "read (Suc n) readerFromConnEOF w = (Ok (data (wbuf w), readerFromConnEOF), w)"
  using assms bufPush_empty [OF assms(1)]
  by (simp add: read_def readerFromConnEOF_def andThen_def soReadW_def soRead_def bufPushW_def)

lemma eof_reader_drain_diverges:
  assumes "wf_buf (wbuf w)" "ended (wconn w)" "\<not> err (wconn w)" "data (wbuf w) \<noteq> []"
  shows "drainBody n readerFromConnEOF w = (Diverge, w)"
proof (induction n)
  case 0
  then show ?case by simp
next
  case (Suc n)
  show ?case
  proof (cases n)
    case 0
    then show ?thesis
      by (simp add: read_def readerFromConnEOF_def andThen_def)
  next
    case (Suc m)
    with eof_reader_repeats [OF assms(1,2,3), of m] assms(4) Suc.IH show ?thesis
      by (simp add: andThen_def)
  qed
qed

text \<open>
  Claim C5. For the request \<open>POST /echo HTTP/1.1\r\n\r\nhi\<close> in one delivery, followed by
  the end of the stream, the reader is the read-until-close reader and the buffered body is
  \<open>hi\<close>. Its \<open>read\<close> returns \<open>buf.data\<close>, the whole 32-byte store: the body, what is
  left of the evicted header and the zero padding. The second \<open>read\<close> returns the same
  32 bytes, not the empty chunk (lemma \<open>eof_reader_repeats\<close>: so does every later one).
\<close>

theorem eof_reader_returns_store:
  "map_option (\<lambda>(msg, w). (readerFromReq msg, valid (wbuf w), fst (read 2 readerFromConnEOF w),
           fst (read 2 readerFromConnEOF (snd (read 2 readerFromConnEOF w)))))
     (firstRequest (connOf [''POST /echo HTTP/1.1'' @ CRLF @ CRLF @ ''hi'']))
   = Some (Inr readerFromConnEOF, ''hi'',
       Ok (''hiST /echo HTTP/1.1'' @ CRLF @ CRLF @ ''hi'' @ replicate 7 (CHR 0x00), readerFromConnEOF),
       Ok (''hiST /echo HTTP/1.1'' @ CRLF @ CRLF @ ''hi'' @ replicate 7 (CHR 0x00), readerFromConnEOF))"
  by code_simp

lemma readChunks_spins:
  "indexOf (subarray (data (wbuf w)) 0 (dlength (wbuf w))) CRLF < 0 \<Longrightarrow>
   readChunks_run n (OuterTest False) w = (Diverge, w)"
  by (induction n) (simp_all add: Let_def)

text \<open>
  Claim C4. With an empty buffer and the chunked body \<open>5\r\nhello\r\n0\r\n\r\n\<close> still to be
  delivered, the chunked reader finds no size line, takes the \<open>continue\<close> and tests again
  without reading: for every amount of fuel it has not returned and the connection is
  untouched. With the whole body already buffered it returns \<open>hello\<close> and then completes.
  The size line is read as a decimal number: for the buffered body
  \<open>10\r\n0123456789abcdef\r\n0\r\n\r\n\<close>, whose first chunk has the hexadecimal size
  \<open>10\<close>, sixteen bytes, the chunk returned is \<open>0123456789\<close> and its ten bytes are
  taken for the whole chunk.
\<close>

theorem readChunks_never_reads:
  "(\<forall>n. read n (readerFromGenerator readChunks)
           \<lparr>wbuf = \<lparr>data = alloc 0, dlength = 0\<rparr>,
            wconn = connOf [''5'' @ CRLF @ ''hello'' @ CRLF @ ''0'' @ CRLF @ CRLF]\<rparr>
        = (Diverge, \<lparr>wbuf = \<lparr>data = alloc 0, dlength = 0\<rparr>,
            wconn = connOf [''5'' @ CRLF @ ''hello'' @ CRLF @ ''0'' @ CRLF @ CRLF]\<rparr>))
   \<and> fst (read 8 (readerFromGenerator readChunks)
           \<lparr>wbuf = \<lparr>data = ''5'' @ CRLF @ ''hello'' @ CRLF @ ''0'' @ CRLF @ CRLF, dlength = 15\<rparr>,
            wconn = connOf []\<rparr>) = Ok (''hello'', FromGenerator (ReadChunks (InnerTest (Some 0) False)))
   \<and> fst (read 8 (FromGenerator (ReadChunks (InnerTest (Some 0) False)))
          (snd (read 8 (readerFromGenerator readChunks)
           \<lparr>wbuf = \<lparr>data = ''5'' @ CRLF @ ''hello'' @ CRLF @ ''0'' @ CRLF @ CRLF, dlength = 15\<rparr>,
            wconn = connOf []\<rparr>))) = Ok ([], FromGenerator Completed)
   \<and> fst (read 8 (readerFromGenerator readChunks)
           \<lparr>wbuf = \<lparr>data = ''10'' @ CRLF @ ''0123456789abcdef'' @ CRLF @ ''0'' @ CRLF @ CRLF, dlength = 27\<rparr>,
            wconn = connOf []\<rparr>)
       = Ok (''0123456789'', FromGenerator (ReadChunks (InnerTest (Some 0) False)))"
proof -
  have "indexOf (subarray (data \<lparr>data = alloc 0, dlength = 0\<rparr>) 0 (dlength \<lparr>data = alloc 0, dlength = 0\<rparr>)) CRLF < 0"
    by (simp add: alloc_def subarray_def adjustOffset_def)
  then have "\<forall>n. read n (readerFromGenerator readChunks)
           \<lparr>wbuf = \<lparr>data = alloc 0, dlength = 0\<rparr>,
            wconn = connOf [''5'' @ CRLF @ ''hello'' @ CRLF @ ''0'' @ CRLF @ CRLF]\<rparr>
        = (Diverge, \<lparr>wbuf = \<lparr>data = alloc 0, dlength = 0\<rparr>,
            wconn = connOf [''5'' @ CRLF @ ''hello'' @ CRLF @ ''0'' @ CRLF @ CRLF]\<rparr>)"
    by (simp add: read_def readerFromGenerator_def readChunks_def gen_next_def readChunks_spins andThen_def)
  moreover have "fst (read 8 (readerFromGenerator readChunks)
           \<lparr>wbuf = \<lparr>data = ''5'' @ CRLF @ ''hello'' @ CRLF @ ''0'' @ CRLF @ CRLF, dlength = 15\<rparr>,
            wconn = connOf []\<rparr>) = Ok (''hello'', FromGenerator (ReadChunks (InnerTest (Some 0) False)))"
    by code_simp
  moreover have "fst (read 8 (FromGenerator (ReadChunks (InnerTest (Some 0) False)))
          (snd (read 8 (readerFromGenerator readChunks)
           \<lparr>wbuf = \<lparr>data = ''5'' @ CRLF @ ''hello'' @ CRLF @ ''0'' @ CRLF @ CRLF, dlength = 15\<rparr>,
            wconn = connOf []\<rparr>))) = Ok ([], FromGenerator Completed)"
    by code_simp
  moreover have "fst (read 8 (readerFromGenerator readChunks)
           \<lparr>wbuf = \<lparr>data = ''10'' @ CRLF @ ''0123456789abcdef'' @ CRLF @ ''0'' @ CRLF @ CRLF, dlength = 27\<rparr>,
            wconn = connOf []\<rparr>)
       = Ok (''0123456789'', FromGenerator (ReadChunks (InnerTest (Some 0) False)))"
    by code_simp
  ultimately show ?thesis by blast
qed

section \<open>Properties of the response writer\<close>

text \<open>
  Claim C3, as stated, fails: for a body of unknown length that yields \<open>hello\<close> and ends,
  the writer sends the header block with \<open>Transfer-Encoding: chunked\<close>, the chunk
  \<open>5\r\nhello\r\n\<close>, and then the terminal chunk \<open>0\r\n\r\n\<close>.
\<close>

theorem chunked_writer_counterexample:
  "(case writeHTTPResp 8 200 [''Server: my_first_http_server''] (readerFromGenerator readChunks)
           \<lparr>wbuf = \<lparr>data = ''5'' @ CRLF @ ''hello'' @ CRLF @ ''0'' @ CRLF @ CRLF, dlength = 15\<rparr>,
            wconn = connOf []\<rparr> of
      (res, w) \<Rightarrow> (res, written (wconn w)))
   = (Ok (FromGenerator Completed),
      [''HTTP/1.1 200 OK'' @ CRLF @ ''Server: my_first_http_server'' @ CRLF
         @ ''Transfer-Encoding: chunked'' @ CRLF @ CRLF,
       ''5'' @ CRLF @ ''hello'' @ CRLF,
       ''0'' @ CRLF @ CRLF])"
  by code_simp

lemma andThen_cases:
  assumes "andThen m f = (r, s')"
  obtains (ok) x s where "m = (Ok x, s)" "f x s = (r, s')"
        | (throw) e where "m = (Throw e, s')" "r = Throw e"
        | (diverge) "m = (Diverge, s')" "r = Diverge"
  using assms by (auto simp: andThen_def split: prod.splits result.splits)

lemma soReadW_written: "soReadW w = (r, w') \<Longrightarrow> written (wconn w') = written (wconn w)"
  by (auto simp: soReadW_def soRead_def split: if_splits list.splits event.splits)

lemma bufPushW_written: "bufPushW d w = (r, w') \<Longrightarrow> written (wconn w') = written (wconn w)"
  by (auto simp: bufPushW_def split: sum.splits)

lemma bufPopW_written: "written (wconn (bufPopW k w)) = written (wconn w)"
  by (simp add: bufPopW_def)

lemma bufExpectMore_written:
  assumes "bufExpectMore w = (r, w')"
  shows "written (wconn w') = written (wconn w)"
  using assms unfolding bufExpectMore_def
proof (cases rule: andThen_cases)
  case (ok d w1)
  then show ?thesis
    using soReadW_written [OF ok(1)] bufPushW_written [of d w1 r w'] by (auto split: if_splits)
next
  case (throw e)
  then show ?thesis using soReadW_written by blast
next
  case diverge
  then show ?thesis using soReadW_written by blast
qed

lemma readConnLength_written:
  assumes "readConnLength remain w = (r, w')"
  shows "written (wconn w') = written (wconn w)"
proof (cases "remain = 0")
  case True
  with assms show ?thesis by (simp add: readConnLength_def)
next
  case False
  have pre: "written (wconn w1) = written (wconn w)"
    if "(if dlength (wbuf w) = 0
           then andThen (soReadW w) (\<lambda>d w.
                andThen (bufPushW d w) (\<lambda>_ w.
                  if length d = 0 then (Throw (Error ''Unexpected EOF from HTTP body''), w)
                  else (Ok (), w)))
           else (Ok (), w)) = (r1, w1)" for r1 :: "unit result" and w1
  proof (cases "dlength (wbuf w) = 0")
    case False
    with that show ?thesis by simp
  next
    case True
    with that have "andThen (soReadW w) (\<lambda>d w.
                andThen (bufPushW d w) (\<lambda>_ w.
                  if length d = 0 then (Throw (Error ''Unexpected EOF from HTTP body''), w)
                  else (Ok (), w))) = (r1, w1)" by simp
    then show ?thesis
    proof (cases rule: andThen_cases)
      case (ok d wa)
      from ok(2) show ?thesis
      proof (cases rule: andThen_cases)
        case (ok u wb)
        then have "w1 = wb" by (auto split: if_splits)
        with bufPushW_written [OF ok(1)] soReadW_written [OF \<open>soReadW w = (Ok d, wa)\<close>]
        show ?thesis by simp
      next
        case (throw e)
        with bufPushW_written soReadW_written [OF \<open>soReadW w = (Ok d, wa)\<close>] show ?thesis by metis
      next
        case diverge
        with bufPushW_written soReadW_written [OF \<open>soReadW w = (Ok d, wa)\<close>] show ?thesis by metis
      qed
    next
      case (throw e)
      then show ?thesis using soReadW_written by blast
    next
      case diverge
      then show ?thesis using soReadW_written by blast
    qed
  qed
  from assms False have "andThen
          (if dlength (wbuf w) = 0
           then andThen (soReadW w) (\<lambda>d w.
                andThen (bufPushW d w) (\<lambda>_ w.
                  if length d = 0 then (Throw (Error ''Unexpected EOF from HTTP body''), w)
                  else (Ok (), w)))
           else (Ok (), w))
          (\<lambda>_ w.
             let consume = min (dlength (wbuf w)) remain;
                 remain' = remain - consume;
                 d = subarray (data (wbuf w)) 0 consume
             in (Ok (d, remain'), bufPopW consume w)) = (r, w')"
    by (simp add: readConnLength_def)
  then show ?thesis
  proof (cases rule: andThen_cases)
    case (ok u wa)
    from ok(2) have "written (wconn w') = written (wconn wa)"
      by (auto simp: Let_def bufPopW_written)
    with pre [OF ok(1)] show ?thesis by simp
  next
    case (throw e)
    from pre [OF throw(1)] show ?thesis .
  next
    case diverge
    from pre [OF diverge(1)] show ?thesis .
  qed
qed

lemma readConnEOF_written:
  "readConnEOF n w = (r, w') \<Longrightarrow> written (wconn w') = written (wconn w)"
proof (induction n arbitrary: w)
  case 0
  then show ?case by simp
next
  case (Suc n)
  from Suc.prems have "andThen (soReadW w) (\<lambda>d w.
     andThen (bufPushW d w) (\<lambda>_ w.
       if length d \<noteq> 0 then readConnEOF n w
       else (Ok (data (wbuf w)), w))) = (r, w')" by simp
  then show ?case
  proof (cases rule: andThen_cases)
    case (ok d wa)
    note rd = soReadW_written [OF ok(1)]
    from ok(2) show ?thesis
    proof (cases rule: andThen_cases)
      case (ok u wb)
      note ps = bufPushW_written [OF ok(1)]
      show ?thesis
      proof (cases "length d \<noteq> 0")
        case True
        with ok(2) have "readConnEOF n wb = (r, w')" by simp
        from Suc.IH [OF this] rd ps show ?thesis by simp
      next
        case False
        with ok(2) rd ps show ?thesis by simp
      qed
    next
      case (throw e)
      with bufPushW_written rd show ?thesis by metis
    next
      case diverge
      with bufPushW_written rd show ?thesis by metis
    qed
  next
    case (throw e)
    then show ?thesis using soReadW_written by blast
  next
    case diverge
    then show ?thesis using soReadW_written by blast
  qed
qed

lemma readChunks_run_written:
  "readChunks_run n pc w = (r, w') \<Longrightarrow> written (wconn w') = written (wconn w)"
proof (induction n pc w arbitrary: r w' rule: readChunks_run.induct)
  case (1 pc w)
  then show ?case by simp
next
  case (2 n fin w)
  show ?case
  proof (cases fin)
    case True
    with 2(3) show ?thesis by simp
  next
    case False
    let ?idx = "indexOf (subarray (data (wbuf w)) 0 (dlength (wbuf w))) CRLF"
    show ?thesis
    proof (cases "?idx < 0")
      case True
      with False 2(3) have "readChunks_run n (OuterTest fin) w = (r, w')" by (simp add: Let_def)
      from 2(1) [OF False refl True this] show ?thesis .
    next
      case nf: False
      with False 2(3) have "readChunks_run n
           (InnerTest (parseDec (subarray (data (wbuf w)) 0 ?idx))
              (parseDec (subarray (data (wbuf w)) 0 ?idx) = Some 0))
           (bufPopW (?idx + 2) w) = (r, w')" by (simp add: Let_def)
      from 2(2) [OF False refl nf refl refl refl this] show ?thesis
        by (simp add: bufPopW_written)
    qed
  qed
next
  case (3 n remain fin w)
  show ?case
  proof (cases remain)
    case None
    with 3(3) have "readChunks_run n (OuterTest fin) (bufPopW 2 w) = (r, w')" by simp
    from 3(1) [OF None this] show ?thesis by (simp add: bufPopW_written)
  next
    case (Some k)
    show ?thesis
    proof (cases "k > 0")
      case False
      with Some 3(3) have "readChunks_run n (OuterTest fin) (bufPopW 2 w) = (r, w')" by simp
      from 3(2) [OF Some False this] show ?thesis by (simp add: bufPopW_written)
    next
      case True
      with Some 3(3) have "andThen (if dlength (wbuf w) = 0 then bufExpectMore w else (Ok (), w)) (\<lambda>_ w.
              let consume = min k (dlength (wbuf w));
                  d = subarray (data (wbuf w)) 0 consume;
                  w1 = bufPopW consume w;
                  r' = k - consume
              in (Ok (Yield d, ReadChunks (InnerTest (Some r') fin)), w1)) = (r, w')" by simp
      then show ?thesis
      proof (cases rule: andThen_cases)
        case (ok u wa)
        from ok(1) have "written (wconn wa) = written (wconn w)"
          using bufExpectMore_written by (auto split: if_splits)
        moreover from ok(2) have "written (wconn w') = written (wconn wa)"
          by (auto simp: Let_def bufPopW_written)
        ultimately show ?thesis by simp
      next
        case (throw e)
        then show ?thesis using bufExpectMore_written by (auto split: if_splits)
      next
        case diverge
        then show ?thesis using bufExpectMore_written by (auto split: if_splits)
      qed
    qed
  qed
qed

lemma gen_next_written:
  "gen_next n g w = (r, w') \<Longrightarrow> written (wconn w') = written (wconn w)"
  by (cases g) (auto simp: gen_next_def dest: readChunks_run_written)

lemma read_written:
  assumes "read n r w = (res, w')"
  shows "written (wconn w') = written (wconn w)"
proof (cases r)
  case (ConnLength len remain)
  with assms have "andThen (readConnLength remain w) (\<lambda>(d, remain') w. (Ok (d, ConnLength len remain'), w)) = (res, w')"
    by (simp add: read_def)
  then show ?thesis
    by (cases rule: andThen_cases) (auto dest: readConnLength_written)
next
  case ConnEOF
  with assms have "andThen (readConnEOF n w) (\<lambda>d w. (Ok (d, ConnEOF), w)) = (res, w')"
    by (simp add: read_def)
  then show ?thesis
    by (cases rule: andThen_cases) (auto dest: readConnEOF_written)
next
  case (FromGenerator g)
  with assms have "andThen (gen_next n g w) (\<lambda>(res, gen') w.
            case res of
              Done \<Rightarrow> (Ok ([], FromGenerator gen'), w)
            | Yield v \<Rightarrow> (Ok (v, FromGenerator gen'), w)) = (res, w')"
    by (simp add: read_def)
  then show ?thesis
    by (cases rule: andThen_cases) (auto dest: gen_next_written split: iterResult.splits)
next
  case (FromMemory d dn)
  with assms show ?thesis by (auto simp: read_def split: if_splits)
qed

lemma read_rlength:
  assumes "read n r w = (Ok (d, r'), w')"
  shows "rlength r' = rlength r"
proof (cases r)
  case (ConnLength len remain)
  with assms have "andThen (readConnLength remain w) (\<lambda>(d, remain') w. (Ok (d, ConnLength len remain'), w)) = (Ok (d, r'), w')"
    by (simp add: read_def)
  then show ?thesis using ConnLength
    by (cases rule: andThen_cases) auto
next
  case ConnEOF
  with assms have "andThen (readConnEOF n w) (\<lambda>d w. (Ok (d, ConnEOF), w)) = (Ok (d, r'), w')"
    by (simp add: read_def)
  then show ?thesis using ConnEOF
    by (cases rule: andThen_cases) auto
next
  case (FromGenerator g)
  with assms have "andThen (gen_next n g w) (\<lambda>(res, gen') w.
            case res of
              Done \<Rightarrow> (Ok ([], FromGenerator gen'), w)
            | Yield v \<Rightarrow> (Ok (v, FromGenerator gen'), w)) = (Ok (d, r'), w')"
    by (simp add: read_def)
  then show ?thesis using FromGenerator
    by (cases rule: andThen_cases) (auto split: iterResult.splits)
next
  case (FromMemory d dn)
  with assms show ?thesis by (auto simp: read_def split: if_splits)
qed

lemma hex_zero: "numToString 16 0 = ''0''"
  by code_simp

lemma writeBody_step:
  assumes "rlength r < 0" and "read n r w = (Ok (d, r1), w1)"
  shows "writeBody (Suc n) r w =
           andThen (soWriteW (numToString 16 (int (length d)) @ CRLF @ d @ CRLF) w1)
             (\<lambda>_ w. if d = [] then (Ok r1, w) else writeBody n r1 w)"
  using assms by (simp add: andThen_def Let_def)

text \<open>Reading does not depend on what was written before, and a read that returns
  leaves the error flag of the connection as it found it.\<close>

lemma andThen_wrote:
  assumes "m' = (case m of (res, s) \<Rightarrow> (res, wrote x s))"
    and "\<And>v s. f v (wrote x s) = (case f v s of (res, s') \<Rightarrow> (res, wrote x s'))"
  shows "andThen m' f = (case andThen m f of (res, s) \<Rightarrow> (res, wrote x s))"
  using assms by (auto simp: andThen_def split: prod.splits result.splits)

lemma wrote_fields [simp]:
  "wbuf (wrote x w) = wbuf w"
  "err (wconn (wrote x w)) = err (wconn w)"
  "ended (wconn (wrote x w)) = ended (wconn w)"
  "incoming (wconn (wrote x w)) = incoming (wconn w)"
  "written (wconn (wrote x w)) = written (wconn w) @ x"
  by (simp_all add: wrote_def)

lemma soReadW_wrote:
  "soReadW (wrote x w) = (case soReadW w of (res, s) \<Rightarrow> (res, wrote x s))"
  by (simp add: soReadW_def soRead_def wrote_def split: list.splits event.splits)

lemma bufPushW_wrote:
  "bufPushW d (wrote x w) = (case bufPushW d w of (res, s) \<Rightarrow> (res, wrote x s))"
  by (simp add: bufPushW_def wrote_def split: sum.splits)

lemma bufPopW_wrote: "bufPopW k (wrote x w) = wrote x (bufPopW k w)"
  by (simp add: bufPopW_def wrote_def)

lemma bufExpectMore_wrote:
  "bufExpectMore (wrote x w) = (case bufExpectMore w of (res, s) \<Rightarrow> (res, wrote x s))"
  unfolding bufExpectMore_def
  by (rule andThen_wrote [OF soReadW_wrote]) (simp add: bufPushW_wrote)

lemma readConnLength_wrote:
  "readConnLength remain (wrote x w) = (case readConnLength remain w of (res, s) \<Rightarrow> (res, wrote x s))"
proof (cases "remain = 0")
  case True
  then show ?thesis by (simp add: readConnLength_def)
next
  case False
  have inner: "andThen (soReadW (wrote x w)) (\<lambda>d w.
                andThen (bufPushW d w) (\<lambda>_ w.
                  if length d = 0 then (Throw (Error ''Unexpected EOF from HTTP body''), w)
                  else (Ok (), w)))
       = (case andThen (soReadW w) (\<lambda>d w.
                andThen (bufPushW d w) (\<lambda>_ w.
                  if length d = 0 then (Throw (Error ''Unexpected EOF from HTTP body''), w)
                  else (Ok (), w))) of (res, s) \<Rightarrow> (res, wrote x s))"
  proof (rule andThen_wrote [OF soReadW_wrote])
    fix v s
    show "andThen (bufPushW v (wrote x s)) (\<lambda>_ w.
                  if length v = 0 then (Throw (Error ''Unexpected EOF from HTTP body''), w)
                  else (Ok (), w))
        = (case andThen (bufPushW v s) (\<lambda>_ w.
                  if length v = 0 then (Throw (Error ''Unexpected EOF from HTTP body''), w)
                  else (Ok (), w)) of (res, s') \<Rightarrow> (res, wrote x s'))"
      by (rule andThen_wrote [OF bufPushW_wrote]) simp
  qed
  have pre: "(if dlength (wbuf (wrote x w)) = 0
           then andThen (soReadW (wrote x w)) (\<lambda>d w.
                andThen (bufPushW d w) (\<lambda>_ w.
                  if length d = 0 then (Throw (Error ''Unexpected EOF from HTTP body''), w)
                  else (Ok (), w)))
           else (Ok (), wrote x w))
       = (case (if dlength (wbuf w) = 0
           then andThen (soReadW w) (\<lambda>d w.
                andThen (bufPushW d w) (\<lambda>_ w.
                  if length d = 0 then (Throw (Error ''Unexpected EOF from HTTP body''), w)
                  else (Ok (), w)))
           else (Ok (), w)) of (res, s) \<Rightarrow> (res, wrote x s))"
    using inner by simp
  show ?thesis using False unfolding readConnLength_def
    by (simp only: if_False, intro andThen_wrote [OF pre]) (simp add: Let_def bufPopW_wrote)
qed

lemma readConnEOF_wrote:
  "readConnEOF n (wrote x w) = (case readConnEOF n w of (res, s) \<Rightarrow> (res, wrote x s))"
proof (induction n arbitrary: w)
  case 0
  then show ?case by simp
next
  case (Suc n)
  show ?case unfolding readConnEOF.simps
  proof (rule andThen_wrote [OF soReadW_wrote])
    fix v s
    show "andThen (bufPushW v (wrote x s)) (\<lambda>_ w.
             if length v \<noteq> 0 then readConnEOF n w else (Ok (data (wbuf w)), w))
        = (case andThen (bufPushW v s) (\<lambda>_ w.
             if length v \<noteq> 0 then readConnEOF n w else (Ok (data (wbuf w)), w))
           of (res, s') \<Rightarrow> (res, wrote x s'))"
      by (rule andThen_wrote [OF bufPushW_wrote]) (simp add: Suc.IH)
  qed
qed

lemma readChunks_run_wrote:
  "readChunks_run n pc (wrote x w) = (case readChunks_run n pc w of (res, s) \<Rightarrow> (res, wrote x s))"
proof (induction n pc w rule: readChunks_run.induct)
  case (1 pc w)
  then show ?case by simp
next
  case (2 n fin w)
  show ?case
  proof (cases fin)
    case True
    then show ?thesis by simp
  next
    case False
    let ?idx = "indexOf (subarray (data (wbuf w)) 0 (dlength (wbuf w))) CRLF"
    show ?thesis
    proof (cases "?idx < 0")
      case True
      with False 2(1) [OF False refl True] show ?thesis by (simp add: Let_def)
    next
      case nf: False
      with False 2(2) [OF False refl nf refl refl refl] show ?thesis
        by (simp add: Let_def bufPopW_wrote)
    qed
  qed
next
  case (3 n remain fin w)
  show ?case
  proof (cases remain)
    case None
    with 3(1) [OF None] show ?thesis by (simp add: bufPopW_wrote)
  next
    case (Some k)
    show ?thesis
    proof (cases "k > 0")
      case False
      with Some 3(2) [OF Some False] show ?thesis by (simp add: bufPopW_wrote)
    next
      case True
      have pre: "(if dlength (wbuf (wrote x w)) = 0 then bufExpectMore (wrote x w) else (Ok (), wrote x w))
          = (case (if dlength (wbuf w) = 0 then bufExpectMore w else (Ok (), w)) of
               (res, s) \<Rightarrow> (res, wrote x s))"
        by (simp add: bufExpectMore_wrote)
      show ?thesis using Some True
        by (simp only: readChunks_run.simps option.case if_True, intro andThen_wrote [OF pre])
           (simp add: Let_def bufPopW_wrote)
    qed
  qed
qed

lemma gen_next_wrote:
  "gen_next n g (wrote x w) = (case gen_next n g w of (res, s) \<Rightarrow> (res, wrote x s))"
  by (cases g) (simp_all add: gen_next_def readChunks_run_wrote)

lemma read_wrote:
  "read n r (wrote x w) = (case read n r w of (res, s) \<Rightarrow> (res, wrote x s))"
proof (cases r)
  case (ConnLength len remain)
  show ?thesis unfolding ConnLength read_def BodyReader.case
    by (rule andThen_wrote [OF readConnLength_wrote]) (simp split: prod.splits)
next
  case ConnEOF
  show ?thesis unfolding ConnEOF read_def BodyReader.case
    by (rule andThen_wrote [OF readConnEOF_wrote]) simp
next
  case (FromGenerator g)
  show ?thesis unfolding FromGenerator read_def BodyReader.case
    by (rule andThen_wrote [OF gen_next_wrote]) (simp split: prod.splits iterResult.splits)
next
  case (FromMemory d dn)
  then show ?thesis by (simp add: read_def)
qed

lemma readAll_wrote:
  "readAll n r (wrote x w) = (case readAll n r w of (res, s) \<Rightarrow> (res, wrote x s))"
proof (induction n arbitrary: r w)
  case 0
  then show ?case by simp
next
  case (Suc n)
  show ?case unfolding readAll.simps
  proof (rule andThen_wrote [OF read_wrote])
    fix v :: "Buffer \<times> BodyReader" and s :: world
    obtain d r' where v: "v = (d, r')" by (cases v)
    have "andThen (readAll n r' (wrote x s)) (\<lambda>(ds, r'') w. (Ok (d # ds, r''), w))
        = (case andThen (readAll n r' s) (\<lambda>(ds, r'') w. (Ok (d # ds, r''), w)) of
             (res, s') \<Rightarrow> (res, wrote x s'))"
      by (rule andThen_wrote [OF Suc.IH]) (simp split: prod.splits)
    then show "(case v of (d, r') \<Rightarrow> \<lambda>w.
             if length d = 0 then (Ok ([], r'), w)
             else andThen (readAll n r' w) (\<lambda>(ds, r'') w. (Ok (d # ds, r''), w))) (wrote x s)
        = (case (case v of (d, r') \<Rightarrow> \<lambda>w.
             if length d = 0 then (Ok ([], r'), w)
             else andThen (readAll n r' w) (\<lambda>(ds, r'') w. (Ok (d # ds, r''), w))) s of
             (res, s') \<Rightarrow> (res, wrote x s'))"
      by (simp add: v)
  qed
qed

lemma andThen_Ok:
  assumes "andThen m f = (Ok v, s')"
  obtains x s where "m = (Ok x, s)" "f x s = (Ok v, s')"
  using assms by (auto simp: andThen_def split: prod.splits result.splits)

lemma soReadW_err: "soReadW w = (Ok v, w') \<Longrightarrow> err (wconn w') = err (wconn w)"
  by (auto simp: soReadW_def soRead_def split: if_splits list.splits event.splits)

lemma bufPushW_err: "bufPushW d w = (res, w') \<Longrightarrow> err (wconn w') = err (wconn w)"
  by (auto simp: bufPushW_def split: sum.splits)

lemma bufPopW_err: "err (wconn (bufPopW k w)) = err (wconn w)"
  by (simp add: bufPopW_def)

lemma bufExpectMore_err:
  assumes "bufExpectMore w = (Ok v, w')"
  shows "err (wconn w') = err (wconn w)"
  using assms unfolding bufExpectMore_def
proof (cases rule: andThen_Ok)
  case (1 d w1)
  then show ?thesis
    using soReadW_err [OF 1(1)] bufPushW_err [of d w1 "Ok v" w'] by (auto split: if_splits)
qed

lemma readConnLength_err:
  assumes "readConnLength remain w = (Ok v, w')"
  shows "err (wconn w') = err (wconn w)"
proof (cases "remain = 0")
  case True
  with assms show ?thesis by (simp add: readConnLength_def)
next
  case False
  with assms have "andThen
          (if dlength (wbuf w) = 0
           then andThen (soReadW w) (\<lambda>d w.
                andThen (bufPushW d w) (\<lambda>_ w.
                  if length d = 0 then (Throw (Error ''Unexpected EOF from HTTP body''), w)
                  else (Ok (), w)))
           else (Ok (), w))
          (\<lambda>_ w.
             let consume = min (dlength (wbuf w)) remain;
                 remain' = remain - consume;
                 d = subarray (data (wbuf w)) 0 consume
             in (Ok (d, remain'), bufPopW consume w)) = (Ok v, w')"
    by (simp add: readConnLength_def)
  then show ?thesis
  proof (cases rule: andThen_Ok)
    case (1 u wa)
    from 1(2) have e2: "err (wconn w') = err (wconn wa)" by (auto simp: Let_def bufPopW_err)
    have "err (wconn wa) = err (wconn w)"
    proof (cases "dlength (wbuf w) = 0")
      case False
      with 1(1) show ?thesis by simp
    next
      case True
      with 1(1) have "andThen (soReadW w) (\<lambda>d w.
                andThen (bufPushW d w) (\<lambda>_ w.
                  if length d = 0 then (Throw (Error ''Unexpected EOF from HTTP body''), w)
                  else (Ok (), w))) = (Ok u, wa)" by simp
      then show ?thesis
      proof (cases rule: andThen_Ok)
        case (1 d wb)
        from 1(2) show ?thesis
        proof (cases rule: andThen_Ok)
          case (1 u2 wc)
          then have "wa = wc" by (auto split: if_splits)
          with bufPushW_err [OF 1(1)] soReadW_err [OF \<open>soReadW w = (Ok d, wb)\<close>]
          show ?thesis by simp
        qed
      qed
    qed
    with e2 show ?thesis by simp
  qed
qed

lemma readConnEOF_err:
  "readConnEOF n w = (Ok v, w') \<Longrightarrow> err (wconn w') = err (wconn w)"
proof (induction n arbitrary: w)
  case 0
  then show ?case by simp
next
  case (Suc n)
  from Suc.prems have "andThen (soReadW w) (\<lambda>d w.
     andThen (bufPushW d w) (\<lambda>_ w.
       if length d \<noteq> 0 then readConnEOF n w
       else (Ok (data (wbuf w)), w))) = (Ok v, w')" by simp
  then show ?case
  proof (cases rule: andThen_Ok)
    case (1 d wa)
    note rd = soReadW_err [OF 1(1)]
    from 1(2) show ?thesis
    proof (cases rule: andThen_Ok)
      case (1 u wb)
      note ps = bufPushW_err [OF 1(1)]
      show ?thesis
      proof (cases "length d \<noteq> 0")
        case True
        with 1(2) have "readConnEOF n wb = (Ok v, w')" by simp
        from Suc.IH [OF this] rd ps show ?thesis by simp
      next
        case False
        with 1(2) rd ps show ?thesis by simp
      qed
    qed
  qed
qed

lemma readChunks_run_err:
  "readChunks_run n pc w = (Ok v, w') \<Longrightarrow> err (wconn w') = err (wconn w)"
proof (induction n pc w arbitrary: v w' rule: readChunks_run.induct)
  case (1 pc w)
  then show ?case by simp
next
  case (2 n fin w)
  show ?case
  proof (cases fin)
    case True
    with 2(3) show ?thesis by simp
  next
    case False
    let ?idx = "indexOf (subarray (data (wbuf w)) 0 (dlength (wbuf w))) CRLF"
    show ?thesis
    proof (cases "?idx < 0")
      case True
      with False 2(3) have "readChunks_run n (OuterTest fin) w = (Ok v, w')" by (simp add: Let_def)
      from 2(1) [OF False refl True this] show ?thesis .
    next
      case nf: False
      with False 2(3) have "readChunks_run n
           (InnerTest (parseDec (subarray (data (wbuf w)) 0 ?idx))
              (parseDec (subarray (data (wbuf w)) 0 ?idx) = Some 0))
           (bufPopW (?idx + 2) w) = (Ok v, w')" by (simp add: Let_def)
      from 2(2) [OF False refl nf refl refl refl this] show ?thesis
        by (simp add: bufPopW_err)
    qed
  qed
next
  case (3 n remain fin w)
  show ?case
  proof (cases remain)
    case None
    with 3(3) have "readChunks_run n (OuterTest fin) (bufPopW 2 w) = (Ok v, w')" by simp
    from 3(1) [OF None this] show ?thesis by (simp add: bufPopW_err)
  next
    case (Some k)
    show ?thesis
    proof (cases "k > 0")
      case False
      with Some 3(3) have "readChunks_run n (OuterTest fin) (bufPopW 2 w) = (Ok v, w')" by simp
      from 3(2) [OF Some False this] show ?thesis by (simp add: bufPopW_err)
    next
      case True
      with Some 3(3) have "andThen (if dlength (wbuf w) = 0 then bufExpectMore w else (Ok (), w)) (\<lambda>_ w.
              let consume = min k (dlength (wbuf w));
                  d = subarray (data (wbuf w)) 0 consume;
                  w1 = bufPopW consume w;
                  r' = k - consume
              in (Ok (Yield d, ReadChunks (InnerTest (Some r') fin)), w1)) = (Ok v, w')" by simp
      then show ?thesis
      proof (cases rule: andThen_Ok)
        case (1 u wa)
        from 1(1) have "err (wconn wa) = err (wconn w)"
          using bufExpectMore_err by (auto split: if_splits)
        moreover from 1(2) have "err (wconn w') = err (wconn wa)"
          by (auto simp: Let_def bufPopW_err)
        ultimately show ?thesis by simp
      qed
    qed
  qed
qed

lemma gen_next_err:
  "gen_next n g w = (Ok v, w') \<Longrightarrow> err (wconn w') = err (wconn w)"
  by (cases g) (auto simp: gen_next_def dest: readChunks_run_err)

lemma read_err:
  assumes "read n r w = (Ok v, w')"
  shows "err (wconn w') = err (wconn w)"
proof (cases r)
  case (ConnLength len remain)
  with assms have "andThen (readConnLength remain w) (\<lambda>(d, remain') w. (Ok (d, ConnLength len remain'), w)) = (Ok v, w')"
    by (simp add: read_def)
  then show ?thesis
    by (cases rule: andThen_Ok) (auto dest: readConnLength_err)
next
  case ConnEOF
  with assms have "andThen (readConnEOF n w) (\<lambda>d w. (Ok (d, ConnEOF), w)) = (Ok v, w')"
    by (simp add: read_def)
  then show ?thesis
    by (cases rule: andThen_Ok) (auto dest: readConnEOF_err)
next
  case (FromGenerator g)
  with assms have "andThen (gen_next n g w) (\<lambda>(res, gen') w.
            case res of
              Done \<Rightarrow> (Ok ([], FromGenerator gen'), w)
            | Yield v \<Rightarrow> (Ok (v, FromGenerator gen'), w)) = (Ok v, w')"
    by (simp add: read_def)
  then show ?thesis
    by (cases rule: andThen_Ok) (auto dest: gen_next_err split: iterResult.splits)
next
  case (FromMemory d dn)
  with assms show ?thesis by (auto simp: read_def split: if_splits)
qed

lemma wrote_wrote: "wrote y (wrote x w) = wrote (x @ y) w"
  by (simp add: wrote_def)

lemma soWriteW_wrote: "\<not> err (wconn w) \<Longrightarrow> soWriteW d w = (Ok (), wrote [d] w)"
  by (simp add: soWriteW_def soWrite_def wrote_def)

lemma soWriteW_refused: "err (wconn w) \<Longrightarrow> soWriteW d w = (Throw IOError, w)"
  by (simp add: soWriteW_def soWrite_def)

lemma readAll_written:
  "readAll n r w = (res, w') \<Longrightarrow> written (wconn w') = written (wconn w)"
proof (induction n arbitrary: r w res w')
  case 0
  then show ?case by simp
next
  case (Suc n)
  from Suc.prems have "andThen (read n r w) (\<lambda>(d, r') w.
       if length d = 0 then (Ok ([], r'), w)
       else andThen (readAll n r' w) (\<lambda>(ds, r'') w. (Ok (d # ds, r''), w))) = (res, w')" by simp
  then show ?case
  proof (cases rule: andThen_cases)
    case (ok x w1)
    obtain d r1 where x: "x = (d, r1)" by (cases x)
    note w1 = read_written [OF ok(1)]
    show ?thesis
    proof (cases "d = []")
      case True
      with ok(2) x w1 show ?thesis by simp
    next
      case False
      with ok(2) x have "andThen (readAll n r1 w1) (\<lambda>(ds, r'') w. (Ok (d # ds, r''), w)) = (res, w')"
        by simp
      then show ?thesis
      proof (cases rule: andThen_cases)
        case (ok y w2)
        then have "w' = w2" by (auto split: prod.splits)
        with Suc.IH [OF ok(1)] w1 show ?thesis by simp
      next
        case (throw e)
        with Suc.IH w1 show ?thesis by metis
      next
        case diverge
        with Suc.IH w1 show ?thesis by metis
      qed
    qed
  next
    case (throw e)
    then show ?thesis using read_written by blast
  next
    case diverge
    then show ?thesis using read_written by blast
  qed
qed

lemma writeBody_readAll:
  "rlength r < 0 \<Longrightarrow> \<not> err (wconn w) \<Longrightarrow>
   (writeBody n r w = (Ok r', w'))
     = (\<exists>ds w1. readAll n r w = (Ok (ds, r'), w1)
          \<and> w' = wrote (map (\<lambda>d. numToString 16 (int (length d)) @ CRLF @ d @ CRLF) ds
                         @ [''0'' @ CRLF @ CRLF]) w1)"
proof (induction n arbitrary: r w)
  case 0
  then show ?case by simp
next
  case (Suc n)
  let ?frame = "\<lambda>d. numToString 16 (int (length d)) @ CRLF @ d @ CRLF"
  obtain res w1 where rd: "read n r w = (res, w1)" by (cases "read n r w")
  show ?case
  proof (cases res)
    case (Throw e)
    with rd show ?thesis by (simp add: andThen_def)
  next
    case Diverge
    with rd show ?thesis by (simp add: andThen_def)
  next
    case (Ok x)
    obtain d r1 where x: "x = (d, r1)" by (cases x)
    from rd Ok x have rd': "read n r w = (Ok (d, r1), w1)" by simp
    have e1: "\<not> err (wconn w1)" using read_err [OF rd'] Suc.prems(2) by simp
    have l1: "rlength r1 < 0" using read_rlength [OF rd'] Suc.prems(1) by simp
    have wb: "writeBody (Suc n) r w =
        (if d = [] then (Ok r1, wrote [''0'' @ CRLF @ CRLF] w1)
         else writeBody n r1 (wrote [?frame d] w1))"
      using writeBody_step [OF Suc.prems(1) rd'] soWriteW_wrote [OF e1]
      by (simp add: andThen_def hex_zero)
    have ra: "readAll (Suc n) r w =
        (if d = [] then (Ok ([], r1), w1)
         else andThen (readAll n r1 w1) (\<lambda>(ds, r'') w. (Ok (d # ds, r''), w)))"
      using rd' by (simp add: andThen_def)
    show ?thesis
    proof (cases "d = []")
      case True
      with wb ra show ?thesis by auto
    next
      case False
      have e2: "\<not> err (wconn (wrote [?frame d] w1))" using e1 by simp
      have "(writeBody (Suc n) r w = (Ok r', w'))
          = (\<exists>ds w2. readAll n r1 (wrote [?frame d] w1) = (Ok (ds, r'), w2)
               \<and> w' = wrote (map ?frame ds @ [''0'' @ CRLF @ CRLF]) w2)"
        using wb False Suc.IH [OF l1 e2] by simp
      also have "\<dots> = (\<exists>ds w3. readAll n r1 w1 = (Ok (ds, r'), w3)
               \<and> w' = wrote (map ?frame (d # ds) @ [''0'' @ CRLF @ CRLF]) w3)"
        by (auto simp: readAll_wrote wrote_wrote split: prod.splits)
      also have "\<dots> = (\<exists>ds w3. readAll (Suc n) r w = (Ok (ds, r'), w3)
               \<and> w' = wrote (map ?frame ds @ [''0'' @ CRLF @ CRLF]) w3)"
        unfolding ra using False
        by (auto simp: andThen_def split: prod.splits result.splits)
      finally show ?thesis .
    qed
  qed
qed

text \<open>The chunks that \<open>readAll\<close> collects are the non-empty ones before the terminal
  chunk.\<close>

lemma readAll_nonempty:
  "readAll n r w = (Ok (ds, r'), w') \<Longrightarrow> [] \<notin> set ds"
proof (induction n arbitrary: r w ds r' w')
  case 0
  then show ?case by simp
next
  case (Suc n)
  from Suc.prems have "andThen (read n r w) (\<lambda>(d, r') w.
       if length d = 0 then (Ok ([], r'), w)
       else andThen (readAll n r' w) (\<lambda>(ds, r'') w. (Ok (d # ds, r''), w))) = (Ok (ds, r'), w')"
    by simp
  then show ?case
  proof (cases rule: andThen_Ok)
    case (1 x w1)
    obtain d r1 where x: "x = (d, r1)" by (cases x)
    show ?thesis
    proof (cases "d = []")
      case True
      with 1(2) x show ?thesis by simp
    next
      case False
      with 1(2) x have "andThen (readAll n r1 w1) (\<lambda>(ds, r'') w. (Ok (d # ds, r''), w)) = (Ok (ds, r'), w')"
        by simp
      then show ?thesis
      proof (cases rule: andThen_Ok)
        case (1 y w2)
        obtain ds' r2 where y: "y = (ds', r2)" by (cases y)
        from 1(2) y have "ds = d # ds'" by simp
        with Suc.IH [OF 1(1) [unfolded y]] False show ?thesis by simp
      qed
    qed
  qed
qed

text \<open>
  Claim C3, amended. Take a body that declares a length below 0. If the status has no reason
  phrase \<open>writeHTTPResp\<close> throws before it writes, and on a connection in error its first
  write is refused. Otherwise it returns exactly when reading the body to its end returns,
  with the chunks \<open>d1, ..., dk\<close> and then the empty chunk; it leaves the reader, the buffer
  and the connection as those reads left them, and what it handed to the socket is the
  header block with \<open>Transfer-Encoding: chunked\<close> appended, then
  \<open>hex(length di) \r\n di \r\n\<close> for each chunk in order, then the terminal empty chunk
  wrapped the same way, \<open>0\r\n\r\n\<close>, and nothing else.
\<close>

theorem writeHTTPResp_chunked:
  assumes "rlength r < 0"
  shows "(\<forall>e. encodeHTTPResp c (hs @ [''Transfer-Encoding: chunked'']) = Inl e
            \<longrightarrow> writeHTTPResp n c hs r w = (Throw e, w))
       \<and> (\<forall>enc. encodeHTTPResp c (hs @ [''Transfer-Encoding: chunked'']) = Inr enc
            \<longrightarrow> (if err (wconn w) then writeHTTPResp n c hs r w = (Throw IOError, w)
                 else (\<forall>r' w'.
                   (writeHTTPResp n c hs r w = (Ok r', w'))
                   = (\<exists>ds w1. readAll n r w = (Ok (ds, r'), w1)
                        \<and> w' = w1\<lparr>wconn := (wconn w1)\<lparr>written :=
                               written (wconn w) @ [enc]
                               @ map (\<lambda>d. numToString 16 (int (length d)) @ CRLF @ d @ CRLF) ds
                               @ [''0'' @ CRLF @ CRLF]\<rparr>\<rparr>))))"
proof -
  let ?frame = "\<lambda>d. numToString 16 (int (length d)) @ CRLF @ d @ CRLF"
  have A: "writeHTTPResp n c hs r w = (Throw e, w)"
    if "encodeHTTPResp c (hs @ [''Transfer-Encoding: chunked'']) = Inl e" for e
    using that assms by (simp add: writeHTTPResp_def)
  have B: "writeHTTPResp n c hs r w = (Throw IOError, w)"
    if "encodeHTTPResp c (hs @ [''Transfer-Encoding: chunked'']) = Inr enc" "err (wconn w)" for enc
    using that assms soWriteW_refused [OF that(2)] by (simp add: writeHTTPResp_def andThen_def)
  have C: "(writeHTTPResp n c hs r w = (Ok r', w'))
                   = (\<exists>ds w1. readAll n r w = (Ok (ds, r'), w1)
                        \<and> w' = w1\<lparr>wconn := (wconn w1)\<lparr>written :=
                               written (wconn w) @ [enc] @ map ?frame ds @ [''0'' @ CRLF @ CRLF]\<rparr>\<rparr>)"
    if enc: "encodeHTTPResp c (hs @ [''Transfer-Encoding: chunked'']) = Inr enc"
      and ne: "\<not> err (wconn w)" for enc r' w'
  proof -
    have run: "writeHTTPResp n c hs r w = writeBody n r (wrote [enc] w)"
      using enc assms soWriteW_wrote [OF ne] by (simp add: writeHTTPResp_def andThen_def)
    have ne': "\<not> err (wconn (wrote [enc] w))" using ne by simp
    have "(writeHTTPResp n c hs r w = (Ok r', w'))
        = (\<exists>ds w2. readAll n r (wrote [enc] w) = (Ok (ds, r'), w2)
             \<and> w' = wrote (map ?frame ds @ [''0'' @ CRLF @ CRLF]) w2)"
      unfolding run using writeBody_readAll [OF assms ne'] by simp
    also have "\<dots> = (\<exists>ds w1. readAll n r w = (Ok (ds, r'), w1)
             \<and> w' = wrote ([enc] @ map ?frame ds @ [''0'' @ CRLF @ CRLF]) w1)"
      by (auto simp: readAll_wrote wrote_wrote split: prod.splits)
    also have "\<dots> = (\<exists>ds w1. readAll n r w = (Ok (ds, r'), w1)
                        \<and> w' = w1\<lparr>wconn := (wconn w1)\<lparr>written :=
                               written (wconn w) @ [enc] @ map ?frame ds @ [''0'' @ CRLF @ CRLF]\<rparr>\<rparr>)"
      using readAll_written [of n r w] by (auto simp: wrote_def)
    finally show ?thesis .
  qed
  from A B C show ?thesis by auto
qed

theorem writeHTTPResp_chunked_witness:
  "rlength (readerFromGenerator readChunks) < 0
   \<and> \<not> err (wconn \<lparr>wbuf = \<lparr>data = ''2'' @ CRLF @ ''hi'' @ CRLF @ ''3'' @ CRLF @ ''you'' @ CRLF @ ''0'' @ CRLF @ CRLF,
                              dlength = 20\<rparr>, wconn = connOf []\<rparr>)
   \<and> fst (readAll 10 (readerFromGenerator readChunks)
          \<lparr>wbuf = \<lparr>data = ''2'' @ CRLF @ ''hi'' @ CRLF @ ''3'' @ CRLF @ ''you'' @ CRLF @ ''0'' @ CRLF @ CRLF,
                    dlength = 20\<rparr>, wconn = connOf []\<rparr>)
       = Ok ([''hi'', ''you''], FromGenerator Completed)
   \<and> (case writeHTTPResp 10 200 [] (readerFromGenerator readChunks)
          \<lparr>wbuf = \<lparr>data = ''2'' @ CRLF @ ''hi'' @ CRLF @ ''3'' @ CRLF @ ''you'' @ CRLF @ ''0'' @ CRLF @ CRLF,
                    dlength = 20\<rparr>, wconn = connOf []\<rparr> of
         (res, w') \<Rightarrow> (res, written (wconn w')))
       = (Ok (FromGenerator Completed),
          [''HTTP/1.1 200 OK'' @ CRLF @ ''Transfer-Encoding: chunked'' @ CRLF @ CRLF,
           ''2'' @ CRLF @ ''hi'' @ CRLF,
           ''3'' @ CRLF @ ''you'' @ CRLF,
           ''0'' @ CRLF @ CRLF])"
proof -
  let ?r = "readerFromGenerator readChunks"
  let ?w = "\<lparr>wbuf = \<lparr>data = ''2'' @ CRLF @ ''hi'' @ CRLF @ ''3'' @ CRLF @ ''you'' @ CRLF @ ''0'' @ CRLF @ CRLF,
                    dlength = 20\<rparr>, wconn = connOf []\<rparr>"
  let ?enc = "''HTTP/1.1 200 OK'' @ CRLF @ ''Transfer-Encoding: chunked'' @ CRLF @ CRLF"
  let ?out = "[?enc, ''2'' @ CRLF @ ''hi'' @ CRLF, ''3'' @ CRLF @ ''you'' @ CRLF, ''0'' @ CRLF @ CRLF]"
  have h1: "rlength ?r < 0" by (simp add: readerFromGenerator_def)
  have h2: "\<not> err (wconn ?w)" by (simp add: connOf_def)
  have w0: "written (wconn ?w) = []" by (simp add: connOf_def)
  have enc: "encodeHTTPResp 200 ([] @ [''Transfer-Encoding: chunked'']) = Inr ?enc" by code_simp
  have ra: "fst (readAll 10 ?r ?w) = Ok ([''hi'', ''you''], FromGenerator Completed)" by code_simp
  then have ra': "readAll 10 ?r ?w = (Ok ([''hi'', ''you''], FromGenerator Completed), snd (readAll 10 ?r ?w))"
    by (metis prod.collapse)
  have fr: "map (\<lambda>d. numToString 16 (int (length d)) @ CRLF @ d @ CRLF) [''hi'', ''you'']
      = [''2'' @ CRLF @ ''hi'' @ CRLF, ''3'' @ CRLF @ ''you'' @ CRLF]" by code_simp
  let ?w' = "(snd (readAll 10 ?r ?w))\<lparr>wconn := (wconn (snd (readAll 10 ?r ?w)))\<lparr>written := ?out\<rparr>\<rparr>"
  from writeHTTPResp_chunked [OF h1, where c = 200 and hs = "[]" and n = 10 and w = ?w] enc h2
  have iff: "(writeHTTPResp 10 200 [] ?r ?w = (Ok r', w'))
                   = (\<exists>ds w1. readAll 10 ?r ?w = (Ok (ds, r'), w1)
                        \<and> w' = w1\<lparr>wconn := (wconn w1)\<lparr>written :=
                               written (wconn ?w) @ [?enc]
                               @ map (\<lambda>d. numToString 16 (int (length d)) @ CRLF @ d @ CRLF) ds
                               @ [''0'' @ CRLF @ CRLF]\<rparr>\<rparr>)" for r' w'
    by simp
  have "\<exists>ds w1. readAll 10 ?r ?w = (Ok (ds, FromGenerator Completed), w1)
                        \<and> ?w' = w1\<lparr>wconn := (wconn w1)\<lparr>written :=
                               written (wconn ?w) @ [?enc]
                               @ map (\<lambda>d. numToString 16 (int (length d)) @ CRLF @ d @ CRLF) ds
                               @ [''0'' @ CRLF @ CRLF]\<rparr>\<rparr>"
    apply (rule exI [of _ "[''hi'', ''you'']"])
    apply (rule exI [of _ "snd (readAll 10 ?r ?w)"])
    apply (rule conjI)
     apply (rule ra')
    apply (simp only: fr w0)
    apply simp
    done
  with iff have "writeHTTPResp 10 200 [] ?r ?w = (Ok (FromGenerator Completed), ?w')" by blast
  then have "(case writeHTTPResp 10 200 [] ?r ?w of (res, w') \<Rightarrow> (res, written (wconn w')))
       = (Ok (FromGenerator Completed), ?out)" by simp
  with h1 h2 ra show ?thesis by blast
qed

section \<open>Properties of the server loop\<close>

text \<open>
  Claim C1. One delivery holds two requests whose version token is \<open>1.0\<close>. The version
  is parsed as \<open>1.0\r\<close>, the test \<open>msg.version === '1.0'\<close> is false, and the loop does
  not return after the first response: both requests are answered before the end of the
  stream closes the connection. The same happens with the version token \<open>HTTP/1.0\<close>, and
  by lemma \<open>parsed_version_never_1_0\<close> the test fails for every parsed request.
\<close>

theorem http10_not_closed:
  "(case serveClient 6 (connOf [''GET / 1.0'' @ CRLF @ CRLF @ ''GET / 1.0'' @ CRLF @ CRLF]) of
      (res, w) \<Rightarrow> (res, written (wconn w)))
   = (Ok (),
      [''HTTP/1.1 200 OK'' @ CRLF @ ''Server: my_first_http_server'' @ CRLF @ ''Content-Length: 13'' @ CRLF @ CRLF,
       ''hello world.'' @ [CHR 0x0A],
       ''HTTP/1.1 200 OK'' @ CRLF @ ''Server: my_first_http_server'' @ CRLF @ ''Content-Length: 13'' @ CRLF @ CRLF,
       ''hello world.'' @ [CHR 0x0A]])
   \<and> (case serveClient 6 (connOf [''GET / HTTP/1.0'' @ CRLF @ CRLF @ ''GET / HTTP/1.0'' @ CRLF @ CRLF]) of
      (res, w) \<Rightarrow> (res, written (wconn w)))
   = (Ok (),
      [''HTTP/1.1 200 OK'' @ CRLF @ ''Server: my_first_http_server'' @ CRLF @ ''Content-Length: 13'' @ CRLF @ CRLF,
       ''hello world.'' @ [CHR 0x0A],
       ''HTTP/1.1 200 OK'' @ CRLF @ ''Server: my_first_http_server'' @ CRLF @ ''Content-Length: 13'' @ CRLF @ CRLF,
       ''hello world.'' @ [CHR 0x0A]])
   \<and> map_option (\<lambda>(msg, w). version msg) (firstRequest (connOf [''GET / 1.0'' @ CRLF @ CRLF]))
     = Some (''1.0'' @ [CHR 0x0D])"
  by code_simp

end
